theory Spec2Isabelle
  imports Complex_Main "HOL-Library.Sublist"
begin

section \<open>The idle-core-window finder of scripts/xiangshan.py\<close>

text \<open>
  The development embeds \<^verbatim>\<open>get_free_cores\<close> and \<^verbatim>\<open>XiangShan.__exec_cmd\<close> of
  \<^verbatim>\<open>scripts/xiangshan.py\<close>. What the code reads from the operating system through
  \<^verbatim>\<open>psutil\<close> is made an explicit input: a \<open>host\<close> snapshot per polling iteration.
  Python integers are \<open>int\<close>. A utilisation percentage, a float in the source, is the
  \<open>real\<close> number the float stands for; comparing a float with an integer, as the source
  does, is exact. Adding floats is not: the value of \<^verbatim>\<open>sum(xs)\<close> on a list of floats is
  rounded, and how depends on the interpreter (one addition after the other before Python
  3.12, a compensated summation since). The builtin is therefore a parameter of the
  model, \<open>float_sum\<close>, and nothing is assumed about it unless a statement says so.
\<close>

subsection \<open>Python helpers\<close>

datatype py_error = ZeroDivisionError | TypeError

text \<open>\<^verbatim>\<open>sep.join(xs)\<close>.\<close>

fun join :: "string \<Rightarrow> string list \<Rightarrow> string" where
  "join sep [] = []"
| "join sep [x] = x"
| "join sep (x # y # ys) = x @ sep @ join sep (y # ys)"

text \<open>\<^verbatim>\<open>sub in s\<close> on strings: \<open>sub\<close> occurs in \<open>s\<close> as a contiguous run.\<close>

fun str_contains :: "string \<Rightarrow> string \<Rightarrow> bool" where
  "str_contains sub [] = (sub = [])"
| "str_contains sub (c # cs) = (prefix sub (c # cs) \<or> str_contains sub cs)"

text \<open>
  \<^verbatim>\<open>int(s)\<close> on a string of ASCII digits, the only strings the groups of \<^verbatim>\<open>numa_re\<close>
  can hold (the interpreter's limit on the length of such a string is not modelled).
\<close>

definition digit_val :: "char \<Rightarrow> int" where
  "digit_val c = int (of_char c) - 48"

definition int_of_str :: "string \<Rightarrow> int" where
  "int_of_str s = foldl (\<lambda>a c. 10 * a + digit_val c) 0 s"

text \<open>\<^verbatim>\<open>range(a, b)\<close> is \<open>[a..b - 1]\<close>, empty when \<open>b \<le> a\<close>.\<close>

definition range2 :: "int \<Rightarrow> int \<Rightarrow> int list" where
  "range2 a b = [a..b - 1]"

text \<open>
  \<^verbatim>\<open>xs[a:b]\<close>: a negative bound counts from the end, and both bounds are clamped to the
  list, so a slice never raises.
\<close>

definition clamp_index :: "int \<Rightarrow> int \<Rightarrow> int" where
  "clamp_index len a = (if a < 0 then max (a + len) 0 else min a len)"

definition slice :: "'a list \<Rightarrow> int \<Rightarrow> int \<Rightarrow> 'a list" where
  "slice xs a b =
     (let len = int (length xs); lo = clamp_index len a; hi = clamp_index len b
      in take (nat (hi - lo)) (drop (nat lo) xs))"

subsection \<open>The regular expression \<^verbatim>\<open>numa_re\<close>\<close>

text \<open>
  \<^verbatim>\<open>re.compile(r'.*numactl +.*-C +([0-9]+)-([0-9]+).*')\<close>, used with \<^verbatim>\<open>match\<close>: anchored
  at the start of the string, free at its end. Every quantifier of the pattern is a greedy
  repetition of a one-character class, so the pattern is a list of items, and the matcher is
  the backtracking one of \<^verbatim>\<open>re\<close>: a repetition first takes as many characters as it can
  and gives them back one at a time while the rest of the pattern fails. The dot does not
  match a newline.
\<close>

datatype re_item =
    Lit string
  | Dot_star
  | Spaces_plus
  | Digits_plus_group

definition is_dot :: "char \<Rightarrow> bool" where
  "is_dot c = (c \<noteq> CHR 0x0A)"

definition is_space :: "char \<Rightarrow> bool" where
  "is_space c = (c = CHR '' '')"

definition is_digit :: "char \<Rightarrow> bool" where
  "is_digit c = (c \<in> set ''0123456789'')"

text \<open>
  \<open>greedy cls cont taken s\<close>: the class \<open>cls\<close> repeated, \<open>taken\<close> being the characters
  already consumed by this repetition; the continuation gets what the repetition consumed
  and the rest of the string.
\<close>

fun greedy :: "(char \<Rightarrow> bool) \<Rightarrow> (string \<Rightarrow> string \<Rightarrow> 'a option) \<Rightarrow> string \<Rightarrow> string \<Rightarrow> 'a option" where
  "greedy cls cont taken [] = cont taken []"
| "greedy cls cont taken (c # cs) =
     (if cls c then
        (case greedy cls cont (taken @ [c]) cs of
           Some r \<Rightarrow> Some r
         | None \<Rightarrow> cont taken (c # cs))
      else cont taken (c # cs))"

text \<open>The result of a match is the list of its groups, in order.\<close>

primrec re_match :: "re_item list \<Rightarrow> string \<Rightarrow> string list option" where
  "re_match [] = (\<lambda>s. Some [])"
| "re_match (x # r) = (\<lambda>s.
     case x of
       Lit l \<Rightarrow> if prefix l s then re_match r (drop (length l) s) else None
     | Dot_star \<Rightarrow> greedy is_dot (\<lambda>taken rest. re_match r rest) [] s
     | Spaces_plus \<Rightarrow>
         greedy is_space (\<lambda>taken rest. if taken = [] then None else re_match r rest) [] s
     | Digits_plus_group \<Rightarrow>
         greedy is_digit
           (\<lambda>taken rest. if taken = [] then None else map_option ((#) taken) (re_match r rest))
           [] s)"

definition numa_re :: "re_item list" where
  "numa_re =
     [Dot_star, Lit ''numactl'', Spaces_plus, Dot_star, Lit ''-C'', Spaces_plus,
      Digits_plus_group, Lit ''-'', Digits_plus_group, Dot_star]"

subsection \<open>The process table\<close>

text \<open>
  A process as \<^verbatim>\<open>psutil.process_iter()\<close> yields it: \<^verbatim>\<open>cmdline()\<close> and \<^verbatim>\<open>name()\<close>
  either answer or raise one of the three exceptions the scan catches.
\<close>

datatype psutil_error = NoSuchProcess | AccessDenied | ZombieProcess

record process =
  cmdline :: "psutil_error + string list"
  name :: "psutil_error + string"

text \<open>
  The body of the \<^verbatim>\<open>try\<close>: the cores one process adds to \<^verbatim>\<open>disable_cores\<close>, or the
  exception it raises. \<^verbatim>\<open>name()\<close> is only called when the command line matched.
\<close>

definition inspect :: "process \<Rightarrow> psutil_error + int list" where
  "inspect proc =
     (case cmdline proc of
        Inl e \<Rightarrow> Inl e
      | Inr args \<Rightarrow>
          (let joint = join '' '' args in
           case re_match numa_re joint of
             None \<Rightarrow> Inr []
           | Some groups \<Rightarrow>
               (case name proc of
                  Inl e \<Rightarrow> Inl e
                | Inr nm \<Rightarrow>
                    if \<not> str_contains ''ssh'' nm
                    then Inr (range2 (int_of_str (groups ! 0)) (int_of_str (groups ! 1) + 1))
                    else Inr [])))"

text \<open>The \<^verbatim>\<open>for proc\<close> loop; the \<^verbatim>\<open>except\<close> clause passes.\<close>

fun scan_processes :: "int list \<Rightarrow> process list \<Rightarrow> int list" where
  "scan_processes disable_cores [] = disable_cores"
| "scan_processes disable_cores (proc # procs) =
     (case inspect proc of
        Inl e \<Rightarrow> scan_processes disable_cores procs
      | Inr cores \<Rightarrow> scan_processes (disable_cores @ cores) procs)"

subsection \<open>One polling iteration\<close>

text \<open>
  What one iteration reads: the process table, \<^verbatim>\<open>psutil.cpu_count(logical=...)\<close> (which
  is \<^verbatim>\<open>None\<close> when the count cannot be determined) and
  \<^verbatim>\<open>psutil.cpu_percent(interval=1, percpu=True)\<close>, one value per logical CPU.
\<close>

record host =
  process_iter :: "process list"
  cpu_count :: "bool \<Rightarrow> nat option"
  cpu_percent :: "real list"

text \<open>
  How an iteration ends: the \<^verbatim>\<open>return\<close>, an exception that leaves the function, or the
  message and \<^verbatim>\<open>time.sleep(random.uniform(a, b))\<close> before the next iteration. The
  message printed and the duration drawn are not part of the model; the outcome keeps the
  two bounds the source passes to \<^verbatim>\<open>random.uniform\<close>.
\<close>

datatype outcome =
    Return "int \<times> int \<times> int"
  | Raise py_error
  | Sleep_uniform int int

text \<open>The \<^verbatim>\<open>return\<close> expression for window \<open>i\<close>; \<^verbatim>\<open>%\<close> and \<^verbatim>\<open>//\<close> raise on a zero divisor.\<close>

definition return_window :: "int \<Rightarrow> int \<Rightarrow> int \<Rightarrow> outcome" where
  "return_window n num_logical_core i =
     (if num_logical_core = 0 \<or> num_logical_core div 2 = 0 then Raise ZeroDivisionError
      else Return (((i * n) mod num_logical_core) div (num_logical_core div 2),
                   i * n, i * n + n - 1))"

text \<open>The \<^verbatim>\<open>for i in range(num_window)\<close> loop, over the window indices still to visit.\<close>

fun scan_windows ::
  "(real list \<Rightarrow> real) \<Rightarrow> int \<Rightarrow> int list \<Rightarrow> int \<Rightarrow> real list \<Rightarrow> int list \<Rightarrow> outcome" where
  "scan_windows float_sum n disable_cores num_logical_core core_usage [] = Sleep_uniform 1 60"
| "scan_windows float_sum n disable_cores num_logical_core core_usage (i # is) =
     (if set disable_cores \<inter> set (range2 (i * n) (i * n + n)) \<noteq> {}
      then scan_windows float_sum n disable_cores num_logical_core core_usage is
      else
        (let window_usage = slice core_usage (i * n) (i * n + n) in
         if float_sum window_usage < 30 * of_int n \<and>
            True \<notin> set (map (\<lambda>x. x > 90) window_usage)
         then return_window n num_logical_core i
         else scan_windows float_sum n disable_cores num_logical_core core_usage is))"

definition iteration :: "(real list \<Rightarrow> real) \<Rightarrow> int \<Rightarrow> host \<Rightarrow> outcome" where
  "iteration float_sum n h =
     (let disable_cores = scan_processes [] (process_iter h) in
      case cpu_count h False of
        None \<Rightarrow> Raise TypeError
      | Some num_logical_core \<Rightarrow>
          (let core_usage = cpu_percent h in
           if n = 0 then Raise ZeroDivisionError
           else
             (let num_window = int num_logical_core div n in
              scan_windows float_sum n disable_cores (int num_logical_core) core_usage
                (range2 0 num_window))))"

subsection \<open>The polling loop\<close>

text \<open>
  \<^verbatim>\<open>while True\<close>: iteration \<open>k\<close> reads the snapshot \<open>world k\<close>. The loop may run for
  ever, which is the value \<open>None\<close>; \<open>Some (Inl e)\<close> is an exception leaving the function.
\<close>

partial_function (option) get_free_cores_loop ::
  "(real list \<Rightarrow> real) \<Rightarrow> int \<Rightarrow> (nat \<Rightarrow> host) \<Rightarrow> nat \<Rightarrow>
     (py_error + int \<times> int \<times> int) option" where
  "get_free_cores_loop float_sum n world k =
     (case iteration float_sum n (world k) of
        Return r \<Rightarrow> Some (Inr r)
      | Raise e \<Rightarrow> Some (Inl e)
      | Sleep_uniform a b \<Rightarrow> get_free_cores_loop float_sum n world (Suc k))"

definition get_free_cores ::
  "(real list \<Rightarrow> real) \<Rightarrow> int \<Rightarrow> (nat \<Rightarrow> host) \<Rightarrow> (py_error + int \<times> int \<times> int) option" where
  "get_free_cores float_sum n world = get_free_cores_loop float_sum n world 0"

subsection \<open>Running a command: \<^verbatim>\<open>XiangShan.__exec_cmd\<close>\<close>





subsection \<open>Notions the properties are stated with\<close>

text \<open>The reserved set of an iteration: the cores in \<^verbatim>\<open>disable_cores\<close> after the scan.\<close>

definition reserved :: "host \<Rightarrow> int set" where
  "reserved h = set (scan_processes [] (process_iter h))"

text \<open>
  The utilisation values of the cores of window \<open>i\<close>, the cores \<open>i * n, \<dots>, i * n + n - 1\<close>:
  one value for each of these cores that has an entry in the snapshot.
\<close>

definition window_samples :: "int \<Rightarrow> real list \<Rightarrow> int \<Rightarrow> real list" where
  "window_samples n usage i =
     map (\<lambda>c. usage ! c) (filter (\<lambda>c. c < length usage) [nat (i * n)..<nat (i * n + n)])"

text \<open>
  A window is free: none of its cores is reserved, the sum of its utilisation values, as
  the interpreter computes it, is less than \<open>30 * n\<close>, and none of them is above 90.
\<close>

definition window_free :: "(real list \<Rightarrow> real) \<Rightarrow> int \<Rightarrow> host \<Rightarrow> int \<Rightarrow> bool" where
  "window_free float_sum n h i \<longleftrightarrow>
     (\<forall>c \<in> set [i * n..i * n + n - 1]. c \<notin> reserved h) \<and>
     float_sum (window_samples n (cpu_percent h) i) < 30 * of_int n \<and>
     (\<forall>x \<in> set (window_samples n (cpu_percent h) i). x \<le> 90)"

text \<open>The test the loop body makes on window \<open>i\<close> before it returns.\<close>

definition accepted ::
  "(real list \<Rightarrow> real) \<Rightarrow> int \<Rightarrow> int list \<Rightarrow> real list \<Rightarrow> int \<Rightarrow> bool" where
  "accepted float_sum n disable_cores core_usage i \<longleftrightarrow>
     set disable_cores \<inter> set (range2 (i * n) (i * n + n)) = {} \<and>
     float_sum (slice core_usage (i * n) (i * n + n)) < 30 * of_int n \<and>
     True \<notin> set (map (\<lambda>x. x > 90) (slice core_usage (i * n) (i * n + n)))"

text \<open>
  The call returns \<open>r\<close> in iteration \<open>k\<close>: every earlier iteration slept, and iteration \<open>k\<close>
  executed the \<^verbatim>\<open>return\<close>.
\<close>

definition returns_in ::
  "(real list \<Rightarrow> real) \<Rightarrow> int \<Rightarrow> (nat \<Rightarrow> host) \<Rightarrow> nat \<Rightarrow> int \<times> int \<times> int \<Rightarrow> bool" where
  "returns_in float_sum n world k r \<longleftrightarrow>
     (\<forall>j \<in> set [0..<k]. iteration float_sum n (world j) = Sleep_uniform 1 60) \<and>
     iteration float_sum n (world k) = Return r"

text \<open>What an iteration that ends the call leaves as the call's result.\<close>

fun final :: "outcome \<Rightarrow> (py_error + int \<times> int \<times> int) option" where
  "final (Return r) = Some (Inr r)"
| "final (Raise e) = Some (Inl e)"
| "final (Sleep_uniform a b) = None"

subsection \<open>Hosts and processes used as examples\<close>

text \<open>
  Every utilisation value of the examples is a small whole number. Sums of such floats are
  exact whatever the order and the method of summation, so that on these hosts the
  interpreter's \<^verbatim>\<open>sum\<close> is \<open>sum_list\<close>.
\<close>

definition proc_pinned :: process where
  "proc_pinned =
     \<lparr>cmdline = Inr [''numactl'', ''-m'', ''0'', ''-C'', ''0-3'', ''./build/emu''],
      name = Inr ''emu''\<rparr>"

definition proc_ssh :: process where
  "proc_ssh =
     \<lparr>cmdline = Inr [''ssh'', ''node1'', ''numactl -m 1 -C 4-7 ./build/emu''],
      name = Inr ''ssh''\<rparr>"

definition proc_editor :: process where
  "proc_editor = \<lparr>cmdline = Inr [''vim'', ''-C'', ''notes.txt''], name = Inr ''vim''\<rparr>"

definition proc_gone :: process where
  "proc_gone = \<lparr>cmdline = Inl NoSuchProcess, name = Inl NoSuchProcess\<rparr>"

definition proc_zombie :: process where
  "proc_zombie =
     \<lparr>cmdline = Inr [''numactl'', ''-C'', ''4-7'', ''./build/emu''], name = Inl ZombieProcess\<rparr>"

definition host_idle :: host where
  "host_idle = \<lparr>process_iter = [], cpu_count = (\<lambda>logical. Some 8),
                 cpu_percent = [0, 0, 0, 0, 0, 0, 0, 0]\<rparr>"

definition host_pinned :: host where
  "host_pinned =
     \<lparr>process_iter = [proc_editor, proc_pinned, proc_gone, proc_ssh, proc_zombie],
      cpu_count = (\<lambda>logical. Some 8),
      cpu_percent = [0, 0, 0, 0, 0, 0, 0, 0]\<rparr>"

definition host_hot :: host where
  "host_hot = \<lparr>process_iter = [], cpu_count = (\<lambda>logical. Some 8),
                cpu_percent = [95, 0, 0, 0, 0, 0, 0, 91]\<rparr>"

definition host_smt :: host where
  "host_smt =
     \<lparr>process_iter = [],
      cpu_count = (\<lambda>logical. if logical then Some 8 else Some 4),
      cpu_percent = [100, 100, 100, 100, 0, 0, 0, 0]\<rparr>"

definition host_one_core :: host where
  "host_one_core = \<lparr>process_iter = [], cpu_count = (\<lambda>logical. Some 1), cpu_percent = [0]\<rparr>"

definition host_small :: host where
  "host_small = \<lparr>process_iter = [], cpu_count = (\<lambda>logical. Some 2), cpu_percent = [0, 0]\<rparr>"

definition host64 :: host where
  "host64 = \<lparr>process_iter = [], cpu_count = (\<lambda>logical. Some 64),
              cpu_percent = replicate 40 50 @ replicate 24 0\<rparr>"

definition world_hot_then_idle :: "nat \<Rightarrow> host" where
  "world_hot_then_idle k = (if k < 2 then host_hot else host_idle)"



text \<open>
  A command line carries a core-pinning invocation with the range \<open>g1\<close>-\<open>g2\<close>: on one line,
  \<^verbatim>\<open>numactl\<close>, spaces, anything, \<^verbatim>\<open>-C\<close>, spaces, the digits \<open>g1\<close>, a dash, the digits \<open>g2\<close>.
\<close>

definition pinned_cmdline :: "string \<Rightarrow> string \<Rightarrow> string \<Rightarrow> bool" where
  "pinned_cmdline joint g1 g2 \<longleftrightarrow>
     (\<exists>pre sp1 mid sp2 rest.
        joint = pre @ ''numactl'' @ sp1 @ mid @ ''-C'' @ sp2 @ g1 @ ''-'' @ g2 @ rest \<and>
        CHR 0x0A \<notin> set pre \<and> CHR 0x0A \<notin> set mid \<and>
        sp1 \<noteq> [] \<and> set sp1 \<subseteq> {CHR '' ''} \<and> sp2 \<noteq> [] \<and> set sp2 \<subseteq> {CHR '' ''} \<and>
        g1 \<noteq> [] \<and> set g1 \<subseteq> set ''0123456789'' \<and> g2 \<noteq> [] \<and> set g2 \<subseteq> set ''0123456789'')"

section \<open>Properties\<close>

subsection \<open>Slices and ranges\<close>

lemma map_nth_upt_take_drop:
  "m \<le> length u \<Longrightarrow> map ((!) u) [a..<m] = take (m - a) (drop a u)"
  by (rule nth_equalityI) auto

lemma filter_less_upt: "filter (\<lambda>c. c < L) [a..<b] = [a..<min b L]"
  by (induction b) auto

text \<open>A slice with bounds \<open>0 \<le> a \<le> b\<close> holds the entries of the indices \<open>a, \<dots>, b - 1\<close> that exist.\<close>

lemma slice_nonneg:
  assumes "0 \<le> a" "a \<le> b"
  shows "slice u a b = map ((!) u) (filter (\<lambda>c. c < length u) [nat a..<nat b])"
proof -
  let ?L = "length u"
  have "slice u a b =
      take (nat (min b (int ?L)) - nat (min a (int ?L))) (drop (nat (min a (int ?L))) u)"
    using assms by (simp add: slice_def clamp_index_def Let_def nat_diff_distrib')
  also have "\<dots> = take (min (nat b) ?L - nat a) (drop (nat a) u)"
    using assms by (cases "nat a \<le> ?L") (auto simp: min_def)
  also have "\<dots> = map ((!) u) [nat a..<min (nat b) ?L]"
    by (simp add: map_nth_upt_take_drop)
  finally show ?thesis by (simp add: filter_less_upt)
qed

text \<open>A slice that ends at or below \<open>P\<close> only reads the first \<open>P\<close> entries.\<close>

lemma slice_take:
  assumes "0 \<le> a" "a \<le> b" "b \<le> int P"
  shows "slice (take P u) a b = slice u a b"
proof -
  have m: "min (nat b) (min (length u) P) = min (nat b) (length u)" using assms by linarith
  have "map ((!) (take P u)) [nat a..<min (nat b) (length u)] =
        map ((!) u) [nat a..<min (nat b) (length u)]"
  proof (rule map_cong[OF refl])
    fix c assume "c \<in> set [nat a..<min (nat b) (length u)]"
    then have "c < nat b" by simp
    then have "c < P" using assms by linarith
    then show "take P u ! c = u ! c" by simp
  qed
  then show ?thesis
    unfolding slice_nonneg[OF assms(1,2)] filter_less_upt by (simp add: m)
qed

text \<open>The first element of \<^verbatim>\<open>range(m)\<close> that satisfies a test.\<close>

lemma find_upto_Some:
  "List.find Q [0..m - 1] = Some i \<longleftrightarrow>
     0 \<le> i \<and> i < m \<and> Q i \<and> (\<forall>j. 0 \<le> j \<and> j < i \<longrightarrow> \<not> Q j)"
proof
  assume "List.find Q [0..m - 1] = Some i"
  then obtain k where k: "k < length [0..m - 1]" "Q ([0..m - 1] ! k)" "i = [0..m - 1] ! k"
    "\<forall>j<k. \<not> Q ([0..m - 1] ! j)"
    unfolding find_Some_iff by blast
  from k(1) have km: "int k < m" by simp
  then have nth: "\<And>j. j \<le> k \<Longrightarrow> [0..m - 1] ! j = int j"
    by (simp add: nth_upto)
  have "i = int k" using k(3) nth by simp
  moreover have "\<not> Q j" if "0 \<le> j" "j < int k" for j
  proof -
    have "nat j < k" using that by linarith
    then have "\<not> Q ([0..m - 1] ! nat j)" using k(4) by blast
    then show ?thesis using nth[of "nat j"] that by simp
  qed
  ultimately show "0 \<le> i \<and> i < m \<and> Q i \<and> (\<forall>j. 0 \<le> j \<and> j < i \<longrightarrow> \<not> Q j)"
    using km k(2) nth[of k] by auto
next
  assume a: "0 \<le> i \<and> i < m \<and> Q i \<and> (\<forall>j. 0 \<le> j \<and> j < i \<longrightarrow> \<not> Q j)"
  then have im: "0 \<le> i" "i < m" by auto
  have nth: "[0..m - 1] ! j = int j" if "j \<le> nat i" for j
  proof -
    have "0 + int j \<le> m - 1" using that im by linarith
    then show ?thesis by (simp del: nth_upto add: nth_upto[of 0 j "m - 1"])
  qed
  have "nat i < length [0..m - 1]" using a by simp
  moreover have "Q ([0..m - 1] ! nat i)" using a nth[of "nat i"] by simp
  moreover have "i = [0..m - 1] ! nat i" using a nth[of "nat i"] by simp
  moreover have "\<forall>j<nat i. \<not> Q ([0..m - 1] ! j)"
  proof (intro allI impI)
    fix j assume "j < nat i"
    then show "\<not> Q ([0..m - 1] ! j)" using a nth[of j] by simp
  qed
  ultimately show "List.find Q [0..m - 1] = Some i"
    unfolding find_Some_iff by blast
qed

lemma find_upto_None:
  "List.find Q [0..m - 1] = None \<longleftrightarrow> (\<forall>i. 0 \<le> i \<and> i < m \<longrightarrow> \<not> Q i)"
  by (auto simp: find_None_iff)

lemma set_range2: "c \<in> set (range2 a b) \<longleftrightarrow> a \<le> c \<and> c < b"
  by (auto simp: range2_def)

text \<open>The last core of window \<open>i < P div n\<close> is below \<open>P\<close>.\<close>

lemma window_end_below:
  assumes "0 < n" "0 \<le> i" "i < P div n"
  shows "i * n + n - 1 < (P::int)"
proof -
  have "i + 1 \<le> P div n" using assms by simp
  then have "(i + 1) * n \<le> (P div n) * n" using assms(1) by (simp add: mult_right_mono)
  also have "\<dots> \<le> P" using assms(1)
    by (metis div_mult_mod_eq le_add_same_cancel1 pos_mod_sign)
  finally show ?thesis by (simp add: algebra_simps)
qed

subsection \<open>One polling iteration\<close>

lemma scan_windows_find:
  "scan_windows fs n dis P u ws =
     (case List.find (accepted fs n dis u) ws of
        None \<Rightarrow> Sleep_uniform 1 60
      | Some i \<Rightarrow> return_window n P i)"
  by (induction ws) (auto simp: accepted_def Let_def)

lemma accepted_window_free:
  assumes "0 \<le> i" "0 < n"
  shows "accepted fs n (scan_processes [] (process_iter h)) (cpu_percent h) i \<longleftrightarrow> window_free fs n h i"
proof -
  have "0 \<le> i * n" "i * n \<le> i * n + n" using assms by simp_all
  then have sl: "slice (cpu_percent h) (i * n) (i * n + n) = window_samples n (cpu_percent h) i"
    by (simp add: slice_nonneg window_samples_def)
  show ?thesis
    unfolding accepted_def window_free_def sl reserved_def range2_def
    by (auto simp: not_less)
qed

lemma accepted_take:
  assumes "0 < n" "0 \<le> i" "i < int P div n"
  shows "accepted fs n dis (take P u) i = accepted fs n dis u i"
proof -
  have "i * n + n - 1 < int P" using assms by (rule window_end_below)
  then have "i * n + n \<le> int P" by simp
  moreover have "0 \<le> i * n" "i * n \<le> i * n + n" using assms by simp_all
  ultimately have "slice (take P u) (i * n) (i * n + n) = slice u (i * n) (i * n + n)"
    by (intro slice_take) simp_all
  then show ?thesis by (simp add: accepted_def)
qed

lemma iteration_find:
  assumes "cpu_count h False = Some P" "n \<noteq> 0"
  shows "iteration fs n h =
     (case List.find (accepted fs n (scan_processes [] (process_iter h)) (cpu_percent h))
             [0..int P div n - 1] of
        None \<Rightarrow> Sleep_uniform 1 60
      | Some i \<Rightarrow> return_window n (int P) i)"
  using assms by (simp add: iteration_def Let_def range2_def scan_windows_find)

lemma return_window_not_Sleep: "return_window n P i \<noteq> Sleep_uniform a b"
  by (simp add: return_window_def)

lemma return_window_Return_iff:
  "return_window n P i = Return (numa, s, e) \<longleftrightarrow>
     P \<noteq> 0 \<and> P div 2 \<noteq> 0 \<and> numa = ((i * n) mod P) div (P div 2) \<and> s = i * n \<and>
     e = i * n + n - 1"
  by (auto simp: return_window_def)

lemma scan_windows_Sleep_bounds:
  "scan_windows fs n dis P u ws = Sleep_uniform a b \<Longrightarrow> a = 1 \<and> b = 60"
  by (cases "List.find (accepted fs n dis u) ws")
     (simp_all add: scan_windows_find return_window_not_Sleep)

lemma iteration_Sleep_bounds:
  assumes "iteration fs n h = Sleep_uniform a b"
  shows "a = 1 \<and> b = 60"
proof (cases "cpu_count h False")
  case None
  then show ?thesis using assms by (simp add: iteration_def)
next
  case (Some P)
  show ?thesis
  proof (cases "n = 0")
    case True
    then show ?thesis using assms Some by (simp add: iteration_def)
  next
    case False
    then show ?thesis using assms Some
      by (simp add: iteration_def Let_def scan_windows_Sleep_bounds)
  qed
qed

lemma iteration_Return_iff:
  assumes "cpu_count h False = Some P" "0 < n"
  shows "iteration fs n h = Return r \<longleftrightarrow>
     (\<exists>i. 0 \<le> i \<and> i < int P div n \<and> window_free fs n h i \<and>
          (\<forall>j. 0 \<le> j \<and> j < i \<longrightarrow> \<not> window_free fs n h j) \<and>
          return_window n (int P) i = Return r)"
proof -
  let ?Q = "accepted fs n (scan_processes [] (process_iter h)) (cpu_percent h)"
  have Q: "?Q i \<longleftrightarrow> window_free fs n h i" if "0 \<le> i" for i
    using that assms(2) by (rule accepted_window_free)
  have "iteration fs n h = Return r \<longleftrightarrow>
      (\<exists>i. List.find ?Q [0..int P div n - 1] = Some i \<and> return_window n (int P) i = Return r)"
    using assms by (simp add: iteration_find split: option.splits)
  also have "\<dots> \<longleftrightarrow> (\<exists>i. 0 \<le> i \<and> i < int P div n \<and> ?Q i \<and>
          (\<forall>j. 0 \<le> j \<and> j < i \<longrightarrow> \<not> ?Q j) \<and> return_window n (int P) i = Return r)"
    unfolding find_upto_Some by blast
  also have "\<dots> \<longleftrightarrow> (\<exists>i. 0 \<le> i \<and> i < int P div n \<and> window_free fs n h i \<and>
          (\<forall>j. 0 \<le> j \<and> j < i \<longrightarrow> \<not> window_free fs n h j) \<and>
          return_window n (int P) i = Return r)"
    using Q by blast
  finally show ?thesis .
qed

lemma iteration_Sleep_iff:
  assumes "cpu_count h False = Some P" "0 < n"
  shows "iteration fs n h = Sleep_uniform 1 60 \<longleftrightarrow>
     (\<forall>i. 0 \<le> i \<and> i < int P div n \<longrightarrow> \<not> window_free fs n h i)"
proof -
  let ?Q = "accepted fs n (scan_processes [] (process_iter h)) (cpu_percent h)"
  have Q: "?Q i \<longleftrightarrow> window_free fs n h i" if "0 \<le> i" for i
    using that assms(2) by (rule accepted_window_free)
  have "iteration fs n h = Sleep_uniform 1 60 \<longleftrightarrow> List.find ?Q [0..int P div n - 1] = None"
    using assms by (simp add: iteration_find return_window_not_Sleep split: option.splits)
  also have "\<dots> \<longleftrightarrow> (\<forall>i. 0 \<le> i \<and> i < int P div n \<longrightarrow> \<not> ?Q i)"
    by (rule find_upto_None)
  also have "\<dots> \<longleftrightarrow> (\<forall>i. 0 \<le> i \<and> i < int P div n \<longrightarrow> \<not> window_free fs n h i)"
    using Q by blast
  finally show ?thesis .
qed

text \<open>An iteration can only return for a positive \<open>n\<close> and a known core count.\<close>

lemma iteration_Return_pos:
  assumes "iteration fs n h = Return r"
  shows "\<exists>P. cpu_count h False = Some P \<and> 0 < n"
proof (cases "cpu_count h False")
  case None
  then show ?thesis using assms by (simp add: iteration_def)
next
  case (Some P)
  have "n \<noteq> 0" using assms Some by (auto simp: iteration_def)
  moreover have "\<not> n < 0"
  proof
    assume neg: "n < 0"
    then have "int P div n \<le> 0" by (simp add: div_nonneg_neg_le0)
    then have "range2 0 (int P div n) = []" by (simp add: range2_def)
    then show False using assms Some neg by (simp add: iteration_def)
  qed
  ultimately show ?thesis using Some by simp
qed

text \<open>What an iteration that returns tells about the window it returns.\<close>

lemma iteration_Return_window:
  assumes "iteration fs n h = Return (numa, s, e)"
  obtains P i where "cpu_count h False = Some P" "0 < n" "0 \<le> i" "i < int P div n"
    "window_free fs n h i" "\<forall>j. 0 \<le> j \<and> j < i \<longrightarrow> \<not> window_free fs n h j"
    "int P div 2 \<noteq> 0" "numa = ((i * n) mod int P) div (int P div 2)"
    "s = i * n" "e = i * n + n - 1"
proof -
  from iteration_Return_pos[OF assms] obtain P where P: "cpu_count h False = Some P" "0 < n"
    by blast
  from assms obtain i where i: "0 \<le> i" "i < int P div n" "window_free fs n h i"
    "\<forall>j. 0 \<le> j \<and> j < i \<longrightarrow> \<not> window_free fs n h j"
    "return_window n (int P) i = Return (numa, s, e)"
    unfolding iteration_Return_iff[OF P] by blast
  from i(5) have "int P div 2 \<noteq> 0" "numa = ((i * n) mod int P) div (int P div 2)"
    "s = i * n" "e = i * n + n - 1"
    unfolding return_window_Return_iff by simp_all
  with P i show ?thesis using that by blast
qed

lemma window_samples_subset: "set (window_samples n u i) \<subseteq> set u"
  by (auto simp: window_samples_def)

subsection \<open>The polling loop\<close>

lemma loop_step_sleep:
  "iteration fs n (world k) = Sleep_uniform a b \<Longrightarrow>
   get_free_cores_loop fs n world k = get_free_cores_loop fs n world (Suc k)"
  by (subst get_free_cores_loop.simps) simp

lemma loop_step_final:
  "final (iteration fs n (world k)) = Some r \<Longrightarrow> get_free_cores_loop fs n world k = Some r"
  by (subst get_free_cores_loop.simps) (cases "iteration fs n (world k)"; simp)

lemma loop_Some_imp:
  assumes "get_free_cores_loop fs n world k = Some r"
  shows "\<exists>j\<ge>k. (\<forall>i. k \<le> i \<and> i < j \<longrightarrow> iteration fs n (world i) = Sleep_uniform 1 60) \<and>
           final (iteration fs n (world j)) = Some r"
  using assms
proof (induction fs n world k r rule: get_free_cores_loop.raw_induct[rotated, consumes 1])
  case (1 loop fs n world k r)
  show ?case
  proof (cases "iteration fs n (world k)")
    case (Return x)
    then have "final (iteration fs n (world k)) = Some r" using 1(2) by simp
    moreover have "\<forall>i. k \<le> i \<and> i < k \<longrightarrow> iteration fs n (world i) = Sleep_uniform 1 60"
    proof (intro allI impI)
      fix i assume "k \<le> i \<and> i < k"
      then have False by linarith
      then show "iteration fs n (world i) = Sleep_uniform 1 60" ..
    qed
    ultimately show ?thesis by blast
  next
    case (Raise e)
    then have "final (iteration fs n (world k)) = Some r" using 1(2) by simp
    moreover have "\<forall>i. k \<le> i \<and> i < k \<longrightarrow> iteration fs n (world i) = Sleep_uniform 1 60"
    proof (intro allI impI)
      fix i assume "k \<le> i \<and> i < k"
      then have False by linarith
      then show "iteration fs n (world i) = Sleep_uniform 1 60" ..
    qed
    ultimately show ?thesis by blast
  next
    case (Sleep_uniform a b)
    then have ab: "iteration fs n (world k) = Sleep_uniform 1 60"
      using iteration_Sleep_bounds[of fs n "world k" a b] by simp
    from Sleep_uniform 1(2) have "loop fs n world (Suc k) = Some r" by simp
    from 1(1)[OF this] obtain j where j: "Suc k \<le> j"
      "\<forall>i. Suc k \<le> i \<and> i < j \<longrightarrow> iteration fs n (world i) = Sleep_uniform 1 60"
      "final (iteration fs n (world j)) = Some r" by blast
    have "iteration fs n (world i) = Sleep_uniform 1 60" if "k \<le> i" "i < j" for i
    proof (cases "i = k")
      case True
      then show ?thesis using ab by simp
    next
      case False
      then have "Suc k \<le> i" using that by simp
      then show ?thesis using j(2) that by blast
    qed
    moreover have "k \<le> j" using j(1) by simp
    ultimately show ?thesis using j(3) by blast
  qed
qed

lemma loop_skip_sleeps:
  assumes "k \<le> j" "\<forall>i. k \<le> i \<and> i < j \<longrightarrow> iteration fs n (world i) = Sleep_uniform 1 60"
  shows "get_free_cores_loop fs n world k = get_free_cores_loop fs n world j"
  using assms
proof (induction j rule: dec_induct)
  case base
  show ?case by simp
next
  case (step m)
  then have "get_free_cores_loop fs n world k = get_free_cores_loop fs n world m" by simp
  also have "\<dots> = get_free_cores_loop fs n world (Suc m)"
    using step by (intro loop_step_sleep[of _ _ _ _ 1 60]) simp
  finally show ?case .
qed

text \<open>
  The result of the loop entered at iteration \<open>k\<close> is that of the first iteration from \<open>k\<close> on
  that does not sleep.
\<close>

lemma loop_Some_iff:
  "get_free_cores_loop fs n world k = Some r \<longleftrightarrow>
     (\<exists>j\<ge>k. (\<forall>i. k \<le> i \<and> i < j \<longrightarrow> iteration fs n (world i) = Sleep_uniform 1 60) \<and>
            final (iteration fs n (world j)) = Some r)"
proof
  assume "get_free_cores_loop fs n world k = Some r"
  then show "\<exists>j\<ge>k. (\<forall>i. k \<le> i \<and> i < j \<longrightarrow> iteration fs n (world i) = Sleep_uniform 1 60) \<and>
            final (iteration fs n (world j)) = Some r"
    by (rule loop_Some_imp)
next
  assume "\<exists>j\<ge>k. (\<forall>i. k \<le> i \<and> i < j \<longrightarrow> iteration fs n (world i) = Sleep_uniform 1 60) \<and>
            final (iteration fs n (world j)) = Some r"
  then obtain j where j: "k \<le> j"
    "\<forall>i. k \<le> i \<and> i < j \<longrightarrow> iteration fs n (world i) = Sleep_uniform 1 60"
    "final (iteration fs n (world j)) = Some r" by blast
  have "get_free_cores_loop fs n world k = get_free_cores_loop fs n world j"
    using j(1,2) by (rule loop_skip_sleeps)
  also have "\<dots> = Some r" using j(3) by (rule loop_step_final)
  finally show "get_free_cores_loop fs n world k = Some r" .
qed

lemma returns_in_iff:
  "returns_in fs n world k r \<longleftrightarrow>
     (\<forall>j<k. iteration fs n (world j) = Sleep_uniform 1 60) \<and> iteration fs n (world k) = Return r"
  unfolding returns_in_def by (simp add: Ball_def)

lemma get_free_cores_returns_iff:
  "get_free_cores fs n world = Some (Inr r) \<longleftrightarrow> (\<exists>k. returns_in fs n world k r)"
proof
  assume "get_free_cores fs n world = Some (Inr r)"
  then obtain j where j: "\<forall>i. 0 \<le> i \<and> i < j \<longrightarrow> iteration fs n (world i) = Sleep_uniform 1 60"
    "final (iteration fs n (world j)) = Some (Inr r)"
    unfolding get_free_cores_def using loop_Some_imp[of fs n world 0 "Inr r"] by blast
  from j(2) have "iteration fs n (world j) = Return r"
    by (cases "iteration fs n (world j)") simp_all
  with j(1) have "returns_in fs n world j r"
    unfolding returns_in_iff by simp
  then show "\<exists>k. returns_in fs n world k r" ..
next
  assume "\<exists>k. returns_in fs n world k r"
  then obtain k where k: "\<forall>j<k. iteration fs n (world j) = Sleep_uniform 1 60"
    "iteration fs n (world k) = Return r"
    unfolding returns_in_iff by blast
  have "get_free_cores_loop fs n world 0 = get_free_cores_loop fs n world k"
    using k(1) by (intro loop_skip_sleeps) simp_all
  also have "\<dots> = Some (Inr r)" using k(2) by (intro loop_step_final) simp
  finally show "get_free_cores fs n world = Some (Inr r)" by (simp add: get_free_cores_def)
qed

lemma loop_never_returns:
  assumes "\<forall>k. iteration fs n (world k) = Sleep_uniform 1 60"
  shows "get_free_cores_loop fs n world k = None"
proof (rule ccontr)
  assume "get_free_cores_loop fs n world k \<noteq> None"
  then obtain r where "get_free_cores_loop fs n world k = Some r" by blast
  from loop_Some_imp[OF this] obtain j where "final (iteration fs n (world j)) = Some r" by blast
  then show False using assms by simp
qed

subsection \<open>What \<^verbatim>\<open>numa_re\<close> matches\<close>

lemma greedy_Some:
  "greedy cls cont taken s = Some r \<Longrightarrow>
   \<exists>p q. s = p @ q \<and> (\<forall>c \<in> set p. cls c) \<and> cont (taken @ p) q = Some r"
proof (induction s arbitrary: taken)
  case Nil
  then show ?case by simp
next
  case (Cons c cs)
  show ?case
  proof (cases "cls c \<and> greedy cls cont (taken @ [c]) cs \<noteq> None")
    case True
    then have "greedy cls cont (taken @ [c]) cs = Some r" using Cons.prems by auto
    from Cons.IH[OF this] obtain p q where
      "cs = p @ q" "\<forall>c \<in> set p. cls c" "cont ((taken @ [c]) @ p) q = Some r" by blast
    then have "c # cs = (c # p) @ q \<and> (\<forall>x \<in> set (c # p). cls x) \<and>
        cont (taken @ (c # p)) q = Some r"
      using True by simp
    then show ?thesis by blast
  next
    case False
    then have "cont taken (c # cs) = Some r" using Cons.prems by (auto split: if_splits)
    then have "c # cs = [] @ (c # cs) \<and> (\<forall>x \<in> set []. cls x) \<and>
        cont (taken @ []) (c # cs) = Some r" by simp
    then show ?thesis by blast
  qed
qed

lemma greedy_complete:
  "(\<forall>c \<in> set p. cls c) \<Longrightarrow> cont (taken @ p) q \<noteq> None \<Longrightarrow>
   greedy cls cont taken (p @ q) \<noteq> None"
proof (induction p arbitrary: taken)
  case Nil
  then show ?case by (cases q) (auto split: option.splits)
next
  case (Cons x p)
  then have "greedy cls cont (taken @ [x]) (p @ q) \<noteq> None" by simp
  then show ?case using Cons.prems by (auto split: option.splits)
qed

lemma re_Lit_iff:
  "re_match (Lit l # r) s = Some gs \<longleftrightarrow> (\<exists>q. s = l @ q \<and> re_match r q = Some gs)"
  by (auto simp: prefix_def)

lemma re_Lit_complete: "re_match r q \<noteq> None \<Longrightarrow> re_match (Lit l # r) (l @ q) \<noteq> None"
  by simp

lemma re_Dot_star_Some:
  assumes "re_match (Dot_star # r) s = Some gs"
  shows "\<exists>p q. s = p @ q \<and> (\<forall>c \<in> set p. is_dot c) \<and> re_match r q = Some gs"
proof -
  from assms have "greedy is_dot (\<lambda>taken rest. re_match r rest) [] s = Some gs" by simp
  from greedy_Some[OF this] show ?thesis by simp
qed

lemma re_Dot_star_complete:
  assumes "\<forall>c \<in> set p. is_dot c" "re_match r q \<noteq> None"
  shows "re_match (Dot_star # r) (p @ q) \<noteq> None"
  using greedy_complete[of p is_dot "\<lambda>taken rest. re_match r rest" "[]" q] assms by simp

lemma re_Spaces_Some:
  assumes "re_match (Spaces_plus # r) s = Some gs"
  shows "\<exists>p q. s = p @ q \<and> p \<noteq> [] \<and> (\<forall>c \<in> set p. is_space c) \<and> re_match r q = Some gs"
proof -
  from assms have "greedy is_space
      (\<lambda>taken rest. if taken = [] then None else re_match r rest) [] s = Some gs" by simp
  from greedy_Some[OF this] obtain p q where pq: "s = p @ q" "\<forall>c \<in> set p. is_space c"
    "(if [] @ p = [] then None else re_match r q) = Some gs" by blast
  from pq(3) have "p \<noteq> []" "re_match r q = Some gs" by (simp_all split: if_splits)
  with pq(1,2) show ?thesis by blast
qed

lemma re_Spaces_complete:
  assumes "\<forall>c \<in> set p. is_space c" "p \<noteq> []" "re_match r q \<noteq> None"
  shows "re_match (Spaces_plus # r) (p @ q) \<noteq> None"
  using greedy_complete[of p is_space
      "\<lambda>taken rest. if taken = [] then None else re_match r rest" "[]" q] assms by simp

lemma re_Digits_Some:
  assumes "re_match (Digits_plus_group # r) s = Some gs"
  shows "\<exists>p q gs'. s = p @ q \<and> p \<noteq> [] \<and> (\<forall>c \<in> set p. is_digit c) \<and>
           re_match r q = Some gs' \<and> gs = p # gs'"
proof -
  from assms have "greedy is_digit
      (\<lambda>taken rest. if taken = [] then None else map_option ((#) taken) (re_match r rest))
      [] s = Some gs" by simp
  from greedy_Some[OF this] obtain p q where pq: "s = p @ q" "\<forall>c \<in> set p. is_digit c"
    "(if [] @ p = [] then None else map_option ((#) ([] @ p)) (re_match r q)) = Some gs"
    by blast
  from pq(3) have "p \<noteq> []" by (simp split: if_splits)
  with pq(3) obtain gs' where "re_match r q = Some gs'" "gs = p # gs'" by auto
  with pq(1,2) \<open>p \<noteq> []\<close> show ?thesis by blast
qed

lemma re_Digits_complete:
  assumes "\<forall>c \<in> set p. is_digit c" "p \<noteq> []" "re_match r q \<noteq> None"
  shows "re_match (Digits_plus_group # r) (p @ q) \<noteq> None"
  using greedy_complete[of p is_digit
      "\<lambda>taken rest. if taken = [] then None else map_option ((#) taken) (re_match r rest)"
      "[]" q] assms by simp

lemma re_last_Dot_star: "re_match [Dot_star] s = Some gs \<Longrightarrow> gs = []"
  using re_Dot_star_Some[of "[]" s gs] by auto

text \<open>A match gives two groups, and the string has the shape of a pinning invocation.\<close>

lemma numa_re_sound:
  assumes "re_match numa_re s = Some gs"
  shows "\<exists>g1 g2. gs = [g1, g2] \<and> pinned_cmdline s g1 g2"
proof -
  from assms obtain pre s1 where 1: "s = pre @ s1" "\<forall>c \<in> set pre. is_dot c"
    "re_match [Lit ''numactl'', Spaces_plus, Dot_star, Lit ''-C'', Spaces_plus,
      Digits_plus_group, Lit ''-'', Digits_plus_group, Dot_star] s1 = Some gs"
    unfolding numa_re_def using re_Dot_star_Some by blast
  from 1(3) obtain s2 where 2: "s1 = ''numactl'' @ s2"
    "re_match [Spaces_plus, Dot_star, Lit ''-C'', Spaces_plus,
      Digits_plus_group, Lit ''-'', Digits_plus_group, Dot_star] s2 = Some gs"
    unfolding re_Lit_iff by blast
  from re_Spaces_Some[OF 2(2)] obtain sp1 s3 where 3: "s2 = sp1 @ s3" "sp1 \<noteq> []"
    "\<forall>c \<in> set sp1. is_space c"
    "re_match [Dot_star, Lit ''-C'', Spaces_plus,
      Digits_plus_group, Lit ''-'', Digits_plus_group, Dot_star] s3 = Some gs" by blast
  from re_Dot_star_Some[OF 3(4)] obtain mid s4 where 4: "s3 = mid @ s4"
    "\<forall>c \<in> set mid. is_dot c"
    "re_match [Lit ''-C'', Spaces_plus,
      Digits_plus_group, Lit ''-'', Digits_plus_group, Dot_star] s4 = Some gs" by blast
  from 4(3) obtain s5 where 5: "s4 = ''-C'' @ s5"
    "re_match [Spaces_plus, Digits_plus_group, Lit ''-'', Digits_plus_group, Dot_star] s5
       = Some gs"
    unfolding re_Lit_iff by blast
  from re_Spaces_Some[OF 5(2)] obtain sp2 s6 where 6: "s5 = sp2 @ s6" "sp2 \<noteq> []"
    "\<forall>c \<in> set sp2. is_space c"
    "re_match [Digits_plus_group, Lit ''-'', Digits_plus_group, Dot_star] s6 = Some gs"
    by blast
  from re_Digits_Some[OF 6(4)] obtain g1 s7 gs1 where 7: "s6 = g1 @ s7" "g1 \<noteq> []"
    "\<forall>c \<in> set g1. is_digit c"
    "re_match [Lit ''-'', Digits_plus_group, Dot_star] s7 = Some gs1" "gs = g1 # gs1"
    by blast
  from 7(4) obtain s8 where 8: "s7 = ''-'' @ s8"
    "re_match [Digits_plus_group, Dot_star] s8 = Some gs1"
    unfolding re_Lit_iff by blast
  from re_Digits_Some[OF 8(2)] obtain g2 s9 gs2 where 9: "s8 = g2 @ s9" "g2 \<noteq> []"
    "\<forall>c \<in> set g2. is_digit c" "re_match [Dot_star] s9 = Some gs2" "gs1 = g2 # gs2"
    by blast
  from re_last_Dot_star[OF 9(4)] have "gs2 = []" .
  then have gs: "gs = [g1, g2]" using 7(5) 9(5) by simp
  have s: "s = pre @ ''numactl'' @ sp1 @ mid @ ''-C'' @ sp2 @ g1 @ ''-'' @ g2 @ s9"
    using 1(1) 2(1) 3(1) 4(1) 5(1) 6(1) 7(1) 8(1) 9(1) by simp
  have "CHR 0x0A \<notin> set pre" "CHR 0x0A \<notin> set mid"
    using 1(2) 4(2) by (auto simp: is_dot_def)
  moreover have "set sp1 \<subseteq> {CHR '' ''}" "set sp2 \<subseteq> {CHR '' ''}"
    using 3(3) 6(3) by (auto simp: is_space_def)
  moreover have "set g1 \<subseteq> set ''0123456789''" "set g2 \<subseteq> set ''0123456789''"
    using 7(3) 9(3) unfolding is_digit_def by blast+
  ultimately have "pinned_cmdline s g1 g2"
    unfolding pinned_cmdline_def using s 3(2) 6(2) 7(2) 9(2) by blast
  with gs show ?thesis by blast
qed

text \<open>Every string of that shape is matched (the groups are those of the last such place).\<close>

lemma numa_re_complete:
  assumes "pinned_cmdline s g1 g2"
  shows "re_match numa_re s \<noteq> None"
proof -
  from assms obtain pre sp1 mid sp2 rest where
    s: "s = pre @ ''numactl'' @ sp1 @ mid @ ''-C'' @ sp2 @ g1 @ ''-'' @ g2 @ rest"
    and nl: "CHR 0x0A \<notin> set pre" "CHR 0x0A \<notin> set mid"
    and sp: "sp1 \<noteq> []" "set sp1 \<subseteq> {CHR '' ''}" "sp2 \<noteq> []" "set sp2 \<subseteq> {CHR '' ''}"
    and g: "g1 \<noteq> []" "set g1 \<subseteq> set ''0123456789''" "g2 \<noteq> []" "set g2 \<subseteq> set ''0123456789''"
    unfolding pinned_cmdline_def by blast
  have dpre: "\<forall>c \<in> set pre. is_dot c" and dmid: "\<forall>c \<in> set mid. is_dot c"
    using nl by (auto simp: is_dot_def)
  have ssp1: "\<forall>c \<in> set sp1. is_space c" and ssp2: "\<forall>c \<in> set sp2. is_space c"
    using sp by (auto simp: is_space_def)
  have dg1: "\<forall>c \<in> set g1. is_digit c" and dg2: "\<forall>c \<in> set g2. is_digit c"
    using g unfolding is_digit_def by blast+
  have "re_match [] rest \<noteq> None" by simp
  then have "re_match [Dot_star] ([] @ rest) \<noteq> None"
    by (intro re_Dot_star_complete) simp_all
  then have "re_match [Dot_star] rest \<noteq> None" by simp
  then have "re_match [Digits_plus_group, Dot_star] (g2 @ rest) \<noteq> None"
    using dg2 g(3) by (intro re_Digits_complete)
  then have "re_match [Lit ''-'', Digits_plus_group, Dot_star] (''-'' @ g2 @ rest) \<noteq> None"
    by (rule re_Lit_complete)
  then have "re_match [Digits_plus_group, Lit ''-'', Digits_plus_group, Dot_star]
      (g1 @ ''-'' @ g2 @ rest) \<noteq> None"
    using dg1 g(1) by (intro re_Digits_complete)
  then have "re_match [Spaces_plus, Digits_plus_group, Lit ''-'', Digits_plus_group, Dot_star]
      (sp2 @ g1 @ ''-'' @ g2 @ rest) \<noteq> None"
    using ssp2 sp(3) by (intro re_Spaces_complete)
  then have "re_match [Lit ''-C'', Spaces_plus, Digits_plus_group, Lit ''-'',
      Digits_plus_group, Dot_star] (''-C'' @ sp2 @ g1 @ ''-'' @ g2 @ rest) \<noteq> None"
    by (rule re_Lit_complete)
  then have "re_match [Dot_star, Lit ''-C'', Spaces_plus, Digits_plus_group, Lit ''-'',
      Digits_plus_group, Dot_star] (mid @ ''-C'' @ sp2 @ g1 @ ''-'' @ g2 @ rest) \<noteq> None"
    using dmid by (intro re_Dot_star_complete)
  then have "re_match [Spaces_plus, Dot_star, Lit ''-C'', Spaces_plus, Digits_plus_group,
      Lit ''-'', Digits_plus_group, Dot_star]
      (sp1 @ mid @ ''-C'' @ sp2 @ g1 @ ''-'' @ g2 @ rest) \<noteq> None"
    using ssp1 sp(1) by (intro re_Spaces_complete)
  then have "re_match [Lit ''numactl'', Spaces_plus, Dot_star, Lit ''-C'', Spaces_plus,
      Digits_plus_group, Lit ''-'', Digits_plus_group, Dot_star]
      (''numactl'' @ sp1 @ mid @ ''-C'' @ sp2 @ g1 @ ''-'' @ g2 @ rest) \<noteq> None"
    by (rule re_Lit_complete)
  then have "re_match numa_re
      (pre @ ''numactl'' @ sp1 @ mid @ ''-C'' @ sp2 @ g1 @ ''-'' @ g2 @ rest) \<noteq> None"
    unfolding numa_re_def using dpre by (intro re_Dot_star_complete)
  then show ?thesis using s by simp
qed

subsection \<open>The reserved set\<close>

lemma in_scan_processes:
  "c \<in> set (scan_processes acc ps) \<longleftrightarrow>
     c \<in> set acc \<or> (\<exists>p \<in> set ps. \<exists>cores. inspect p = Inr cores \<and> c \<in> set cores)"
proof (induction ps arbitrary: acc)
  case Nil
  show ?case by simp
next
  case (Cons p ps)
  show ?case
  proof (cases "inspect p")
    case (Inl e)
    then show ?thesis using Cons.IH[of acc] by simp
  next
    case (Inr cores)
    then show ?thesis using Cons.IH[of "acc @ cores"] by auto
  qed
qed

text \<open>The cores one process contributes.\<close>

lemma inspect_cores_iff:
  "(\<exists>cores. inspect p = Inr cores \<and> c \<in> set cores) \<longleftrightarrow>
     (\<exists>args nm gs. cmdline p = Inr args \<and> name p = Inr nm \<and> \<not> str_contains ''ssh'' nm \<and>
        re_match numa_re (join '' '' args) = Some gs \<and>
        int_of_str (gs ! 0) \<le> c \<and> c \<le> int_of_str (gs ! 1))"
proof (cases "cmdline p")
  case (Inl e)
  then show ?thesis by (simp add: inspect_def)
next
  case (Inr args)
  show ?thesis
  proof (cases "re_match numa_re (join '' '' args)")
    case None
    then show ?thesis using Inr by (simp add: inspect_def)
  next
    case (Some gs)
    show ?thesis
    proof (cases "name p")
      case (Inl e)
      then show ?thesis using Inr Some by (simp add: inspect_def)
    next
      case nm: (Inr nm)
      show ?thesis
        using Inr Some nm by (auto simp: inspect_def set_range2)
    qed
  qed
qed

text \<open>
  C4. A core is reserved exactly when some process of the table has a command line that
  \<^verbatim>\<open>numa_re\<close> matches, that is, one with a pinning invocation \<^verbatim>\<open>numactl ... -C g1-g2\<close>, a
  name that does not contain \<^verbatim>\<open>ssh\<close>, and the core lies in the inclusive range from \<open>g1\<close>
  to \<open>g2\<close>. Processes whose inspection raises, whose command line does not match or whose
  name is excluded add nothing, wherever they stand in the table; and the command lines
  matched are exactly those with a pinning invocation.
\<close>

theorem C4_reserved_set:
  "(c \<in> reserved h \<longleftrightarrow>
      (\<exists>p \<in> set (process_iter h). \<exists>args nm g1 g2.
         cmdline p = Inr args \<and> name p = Inr nm \<and> \<not> str_contains ''ssh'' nm \<and>
         re_match numa_re (join '' '' args) = Some [g1, g2] \<and>
         pinned_cmdline (join '' '' args) g1 g2 \<and>
         int_of_str g1 \<le> c \<and> c \<le> int_of_str g2)) \<and>
   (re_match numa_re joint \<noteq> None \<longleftrightarrow> (\<exists>g1 g2. pinned_cmdline joint g1 g2))"
proof -
  have "c \<in> reserved h \<longleftrightarrow>
      (\<exists>p \<in> set (process_iter h). \<exists>cores. inspect p = Inr cores \<and> c \<in> set cores)"
    unfolding reserved_def in_scan_processes by simp
  also have "\<dots> \<longleftrightarrow> (\<exists>p \<in> set (process_iter h). \<exists>args nm gs.
        cmdline p = Inr args \<and> name p = Inr nm \<and> \<not> str_contains ''ssh'' nm \<and>
        re_match numa_re (join '' '' args) = Some gs \<and>
        int_of_str (gs ! 0) \<le> c \<and> c \<le> int_of_str (gs ! 1))"
    unfolding inspect_cores_iff ..
  also have "\<dots> \<longleftrightarrow> (\<exists>p \<in> set (process_iter h). \<exists>args nm g1 g2.
         cmdline p = Inr args \<and> name p = Inr nm \<and> \<not> str_contains ''ssh'' nm \<and>
         re_match numa_re (join '' '' args) = Some [g1, g2] \<and>
         pinned_cmdline (join '' '' args) g1 g2 \<and>
         int_of_str g1 \<le> c \<and> c \<le> int_of_str g2)" (is "?L \<longleftrightarrow> ?R")
  proof
    assume ?L
    then obtain p args nm gs where p: "p \<in> set (process_iter h)" "cmdline p = Inr args"
      "name p = Inr nm" "\<not> str_contains ''ssh'' nm"
      "re_match numa_re (join '' '' args) = Some gs"
      "int_of_str (gs ! 0) \<le> c" "c \<le> int_of_str (gs ! 1)" by blast
    from numa_re_sound[OF p(5)] obtain g1 g2 where
      g: "gs = [g1, g2]" "pinned_cmdline (join '' '' args) g1 g2" by blast
    then have "int_of_str g1 \<le> c" "c \<le> int_of_str g2" using p(6,7) by simp_all
    with p g show ?R by blast
  next
    assume ?R
    then obtain p args nm g1 g2 where p: "p \<in> set (process_iter h)" "cmdline p = Inr args"
      "name p = Inr nm" "\<not> str_contains ''ssh'' nm"
      "re_match numa_re (join '' '' args) = Some [g1, g2]"
      "int_of_str g1 \<le> c" "c \<le> int_of_str g2" by blast
    then have "int_of_str ([g1, g2] ! 0) \<le> c" "c \<le> int_of_str ([g1, g2] ! 1)" by simp_all
    with p show ?L by blast
  qed
  finally have res: "c \<in> reserved h \<longleftrightarrow>
      (\<exists>p \<in> set (process_iter h). \<exists>args nm g1 g2.
         cmdline p = Inr args \<and> name p = Inr nm \<and> \<not> str_contains ''ssh'' nm \<and>
         re_match numa_re (join '' '' args) = Some [g1, g2] \<and>
         pinned_cmdline (join '' '' args) g1 g2 \<and>
         int_of_str g1 \<le> c \<and> c \<le> int_of_str g2)" .
  have "re_match numa_re joint \<noteq> None \<longleftrightarrow> (\<exists>g1 g2. pinned_cmdline joint g1 g2)"
    using numa_re_sound[of joint] numa_re_complete[of joint] by blast
  with res show ?thesis by blast
qed

theorem C4_witness:
  "process_iter host_pinned = [proc_editor, proc_pinned, proc_gone, proc_ssh, proc_zombie] \<and>
   reserved host_pinned = {0, 1, 2, 3} \<and>
   (\<exists>p \<in> set (process_iter host_pinned). \<exists>args nm g1 g2.
      cmdline p = Inr args \<and> name p = Inr nm \<and> \<not> str_contains ''ssh'' nm \<and>
      re_match numa_re (join '' '' args) = Some [g1, g2] \<and>
      pinned_cmdline (join '' '' args) g1 g2 \<and>
      int_of_str g1 \<le> 2 \<and> 2 \<le> int_of_str g2) \<and>
   inspect proc_editor = Inr [] \<and> inspect proc_pinned = Inr [0, 1, 2, 3] \<and>
   inspect proc_gone = Inl NoSuchProcess \<and> inspect proc_ssh = Inr [] \<and>
   inspect proc_zombie = Inl ZombieProcess \<and>
   re_match numa_re (join '' '' [''ssh'', ''node1'', ''numactl -m 1 -C 4-7 ./build/emu''])
     = Some [''4'', ''7'']"
proof -
  have "scan_processes [] (process_iter host_pinned) = [0, 1, 2, 3]" by code_simp
  then have r: "reserved host_pinned = {0, 1, 2, 3}" by (simp add: reserved_def)
  then have "2 \<in> reserved host_pinned" by simp
  then have e: "\<exists>p \<in> set (process_iter host_pinned). \<exists>args nm g1 g2.
      cmdline p = Inr args \<and> name p = Inr nm \<and> \<not> str_contains ''ssh'' nm \<and>
      re_match numa_re (join '' '' args) = Some [g1, g2] \<and>
      pinned_cmdline (join '' '' args) g1 g2 \<and>
      int_of_str g1 \<le> 2 \<and> 2 \<le> int_of_str g2"
    using C4_reserved_set[of 2 host_pinned "[]"] by blast
  have i: "inspect proc_editor = Inr []" "inspect proc_pinned = Inr [0, 1, 2, 3]"
    "inspect proc_gone = Inl NoSuchProcess" "inspect proc_ssh = Inr []"
    "inspect proc_zombie = Inl ZombieProcess"
    by code_simp+
  have m: "re_match numa_re (join '' '' [''ssh'', ''node1'', ''numactl -m 1 -C 4-7 ./build/emu''])
     = Some [''4'', ''7'']" by code_simp
  have "process_iter host_pinned = [proc_editor, proc_pinned, proc_gone, proc_ssh, proc_zombie]"
    by (simp add: host_pinned_def)
  with r e i m show ?thesis by blast
qed

subsection \<open>The window an iteration returns\<close>

text \<open>
  On a host of at least two cores, and for a positive \<open>n\<close>, an iteration returns window \<open>i\<close>
  exactly when \<open>i\<close> is the first free window in ascending order, and sleeps exactly when no
  window is free.
\<close>

lemma iteration_first_free_window:
  assumes "cpu_count h False = Some P" and "0 < n" and "2 \<le> P"
  shows "(iteration fs n h = Return (numa, s, e) \<longleftrightarrow>
            (\<exists>i. 0 \<le> i \<and> i < int P div n \<and> window_free fs n h i \<and>
                 (\<forall>j. 0 \<le> j \<and> j < i \<longrightarrow> \<not> window_free fs n h j) \<and>
                 numa = ((i * n) mod int P) div (int P div 2) \<and> s = i * n \<and>
                 e = i * n + n - 1)) \<and>
         (iteration fs n h = Sleep_uniform 1 60 \<longleftrightarrow>
            (\<forall>i. 0 \<le> i \<and> i < int P div n \<longrightarrow> \<not> window_free fs n h i))"
proof -
  have P2: "int P \<noteq> 0" "int P div 2 \<noteq> 0" using assms(3) by simp_all
  have rw: "return_window n (int P) i = Return (numa, s, e) \<longleftrightarrow>
      numa = ((i * n) mod int P) div (int P div 2) \<and> s = i * n \<and> e = i * n + n - 1" for i
    unfolding return_window_Return_iff using P2 by simp
  show ?thesis
    unfolding iteration_Return_iff[OF assms(1,2)] iteration_Sleep_iff[OF assms(1,2)] rw
    by simp
qed

text \<open>
  C1. The call is to return the first window, in ascending order, that is free. On a host
  of one core it does not: with \<open>n = 1\<close>, no process and the utilisation 0, window 0 is free
  (it is the only window, none of its cores is reserved, its sum is below 30 and its value
  is not above 90), and the \<^verbatim>\<open>return\<close> expression divides by \<^verbatim>\<open>1 // 2\<close>: the iteration, and
  the call, end in \<^verbatim>\<open>ZeroDivisionError\<close>.
\<close>

theorem C1_one_core_host_raises:
  "cpu_count host_one_core False = Some 1 \<and> int 1 div 1 = 1 \<and>
   reserved host_one_core = {} \<and> cpu_percent host_one_core = [0] \<and>
   window_free sum_list 1 host_one_core 0 \<and>
   iteration sum_list 1 host_one_core = Raise ZeroDivisionError \<and>
   get_free_cores sum_list 1 (\<lambda>k. host_one_core) = Some (Inl ZeroDivisionError)"
proof -
  have w: "window_free sum_list 1 host_one_core 0" by code_simp
  have i: "iteration sum_list 1 host_one_core = Raise ZeroDivisionError" by code_simp
  then have "get_free_cores sum_list 1 (\<lambda>k. host_one_core) = Some (Inl ZeroDivisionError)"
    unfolding get_free_cores_def by (intro loop_step_final) simp
  with w i show ?thesis by (simp add: host_one_core_def reserved_def)
qed

theorem C1_witness:
  "iteration sum_list 1 host_one_core \<noteq> Return (0, 0, 0) \<and>
   get_free_cores sum_list 1 (\<lambda>k. host_one_core) \<noteq> Some (Inr (0, 0, 0))"
  using C1_one_core_host_raises by simp

text \<open>
  C2. A triple \<open>(numa, s, e)\<close> returned by the call comes from some iteration \<open>k\<close>; with \<open>P\<close>
  the core count sampled in that iteration, \<open>e - s + 1 = n\<close>, \<open>0 \<le> s \<le> e < P\<close>, and \<open>s\<close> is
  \<open>i * n\<close> for a window index \<open>i \<ge> 0\<close>.
\<close>

theorem C2_returned_window_bounds:
  assumes "get_free_cores fs n world = Some (Inr (numa, s, e))"
  shows "\<exists>k P i. returns_in fs n world k (numa, s, e) \<and> cpu_count (world k) False = Some P \<and>
           e - s + 1 = n \<and> 0 \<le> s \<and> s \<le> e \<and> e < int P \<and> 0 \<le> i \<and> s = i * n \<and> n dvd s"
proof -
  from assms obtain k where k: "returns_in fs n world k (numa, s, e)"
    unfolding get_free_cores_returns_iff by blast
  then have "iteration fs n (world k) = Return (numa, s, e)" by (simp add: returns_in_iff)
  then obtain P i where w: "cpu_count (world k) False = Some P" "0 < n" "0 \<le> i"
    "i < int P div n" "s = i * n" "e = i * n + n - 1"
    by (rule iteration_Return_window)
  have "e < int P" using window_end_below[OF w(2,3,4)] w(6) by simp
  moreover have "0 \<le> s" using w(2,3,5) by simp
  moreover have "s \<le> e" "e - s + 1 = n" using w(2,5,6) by simp_all
  moreover have "n dvd s" using w(5) by simp
  ultimately show ?thesis using k w(1,3,5) by blast
qed

theorem C2_witness:
  "get_free_cores sum_list 4 (\<lambda>k. host_pinned) = Some (Inr (1, 4, 7)) \<and>
   (\<exists>k P i. returns_in sum_list 4 (\<lambda>k. host_pinned) k (1, 4, 7) \<and>
      cpu_count ((\<lambda>k. host_pinned) k) False = Some P \<and>
      (7::int) - 4 + 1 = 4 \<and> (0::int) \<le> 4 \<and> (4::int) \<le> 7 \<and> 7 < int P \<and> 0 \<le> i \<and>
      (4::int) = i * 4 \<and> (4::int) dvd 4)"
proof -
  have "iteration sum_list 4 host_pinned = Return (1, 4, 7)" by code_simp
  then have g: "get_free_cores sum_list 4 (\<lambda>k. host_pinned) = Some (Inr (1, 4, 7))"
    unfolding get_free_cores_def by (intro loop_step_final) simp
  from C2_returned_window_bounds[OF g] g show ?thesis by simp
qed

text \<open>
  C3. The window returned by the call never meets the reserved set sampled in the iteration
  that returned it; in particular, when that reserved set covers the first window \<open>[0, n)\<close>,
  the returned start is at least \<open>n\<close>.
\<close>

theorem C3_returned_window_unreserved:
  assumes "get_free_cores fs n world = Some (Inr (numa, s, e))"
  shows "\<exists>k. returns_in fs n world k (numa, s, e) \<and>
           (\<forall>c. s \<le> c \<and> c \<le> e \<longrightarrow> c \<notin> reserved (world k)) \<and>
           ((\<forall>c. 0 \<le> c \<and> c < n \<longrightarrow> c \<in> reserved (world k)) \<longrightarrow> n \<le> s)"
proof -
  from assms obtain k where k: "returns_in fs n world k (numa, s, e)"
    unfolding get_free_cores_returns_iff by blast
  then have "iteration fs n (world k) = Return (numa, s, e)" by (simp add: returns_in_iff)
  then obtain P i where w: "0 < n" "0 \<le> i" "window_free fs n (world k) i"
    "s = i * n" "e = i * n + n - 1"
    by (rule iteration_Return_window)
  have free: "c \<notin> reserved (world k)" if "s \<le> c" "c \<le> e" for c
    using w(3,4,5) that by (simp add: window_free_def)
  have "n \<le> s" if cov: "\<forall>c. 0 \<le> c \<and> c < n \<longrightarrow> c \<in> reserved (world k)"
  proof (rule ccontr)
    assume "\<not> n \<le> s"
    then have "s < n" by simp
    moreover have "0 \<le> s" using w(1,2,4) by simp
    ultimately have "s \<in> reserved (world k)" using cov by blast
    moreover have "s \<le> e" using w(1,4,5) by simp
    ultimately show False using free[of s] by simp
  qed
  with free k show ?thesis by blast
qed

theorem C3_witness:
  "get_free_cores sum_list 4 (\<lambda>k. host_pinned) = Some (Inr (1, 4, 7)) \<and>
   (\<exists>k. returns_in sum_list 4 (\<lambda>k. host_pinned) k (1, 4, 7) \<and>
      (\<forall>c. 4 \<le> c \<and> c \<le> 7 \<longrightarrow> c \<notin> reserved ((\<lambda>k. host_pinned) k)) \<and>
      ((\<forall>c. 0 \<le> c \<and> c < 4 \<longrightarrow> c \<in> reserved ((\<lambda>k. host_pinned) k)) \<longrightarrow> (4::int) \<le> 4)) \<and>
   reserved host_pinned = {0, 1, 2, 3}"
proof -
  have "iteration sum_list 4 host_pinned = Return (1, 4, 7)" by code_simp
  then have g: "get_free_cores sum_list 4 (\<lambda>k. host_pinned) = Some (Inr (1, 4, 7))"
    unfolding get_free_cores_def by (intro loop_step_final) simp
  have "scan_processes [] (process_iter host_pinned) = [0, 1, 2, 3]" by code_simp
  then have r: "reserved host_pinned = {0, 1, 2, 3}" by (simp add: reserved_def)
  from C3_returned_window_unreserved[OF g] g r show ?thesis by simp
qed

text \<open>
  C6. The first component of a returned triple is \<open>(s mod P) div (P div 2)\<close>, \<open>P\<close> being the
  core count sampled in the iteration that returned; with 64 cores and \<open>n = 8\<close>, the window
  starting at 40 gives node 1 and the window starting at 8 gives node 0.
\<close>

theorem C6_numa_node:
  assumes "get_free_cores fs n world = Some (Inr (numa, s, e))"
  shows "(\<exists>k P. returns_in fs n world k (numa, s, e) \<and> cpu_count (world k) False = Some P \<and>
            numa = (s mod int P) div (int P div 2)) \<and>
         return_window 8 64 5 = Return (1, 40, 47) \<and>
         return_window 8 64 1 = Return (0, 8, 15)"
proof -
  from assms obtain k where k: "returns_in fs n world k (numa, s, e)"
    unfolding get_free_cores_returns_iff by blast
  then have "iteration fs n (world k) = Return (numa, s, e)" by (simp add: returns_in_iff)
  then obtain P i where w: "cpu_count (world k) False = Some P"
    "numa = ((i * n) mod int P) div (int P div 2)" "s = i * n"
    by (rule iteration_Return_window)
  then have "numa = (s mod int P) div (int P div 2)" by simp
  moreover have "return_window 8 64 5 = Return (1, 40, 47)" by (simp add: return_window_def)
  moreover have "return_window 8 64 1 = Return (0, 8, 15)" by (simp add: return_window_def)
  ultimately show ?thesis using k w(1) by blast
qed

theorem C6_witness:
  "get_free_cores sum_list 8 (\<lambda>k. host64) = Some (Inr (1, 40, 47)) \<and>
   (\<exists>k P. returns_in sum_list 8 (\<lambda>k. host64) k (1, 40, 47) \<and>
      cpu_count ((\<lambda>k. host64) k) False = Some P \<and> (1::int) = (40 mod int P) div (int P div 2))"
proof -
  have "iteration sum_list 8 host64 = Return (1, 40, 47)" by code_simp
  then have g: "get_free_cores sum_list 8 (\<lambda>k. host64) = Some (Inr (1, 40, 47))"
    unfolding get_free_cores_def by (intro loop_step_final) simp
  from C6_numa_node[OF g] g show ?thesis by simp
qed

subsection \<open>Sleeping and retrying\<close>

text \<open>
  C5. When no window is free in an iteration (in particular when every window has a core
  above 90), the iteration ends in \<^verbatim>\<open>time.sleep(random.uniform(1, 60))\<close> and the call does not
  return in it. What the call then does is what the later snapshots decide, each scanned
  anew (processes, core count and utilisation): its result is that of the first later
  iteration that does not sleep, and it has none if every later iteration sleeps.
\<close>

theorem C5_no_free_window_sleeps_and_retries:
  assumes "cpu_count (world k) False = Some P" and "0 < n"
    and "(\<forall>i. 0 \<le> i \<and> i < int P div n \<longrightarrow> \<not> window_free fs n (world k) i) \<or>
         (\<forall>i. 0 \<le> i \<and> i < int P div n \<longrightarrow>
              (\<exists>x \<in> set (window_samples n (cpu_percent (world k)) i). x > 90))"
  shows "iteration fs n (world k) = Sleep_uniform 1 60 \<and>
         (\<forall>r. \<not> returns_in fs n world k r) \<and>
         (\<forall>r. get_free_cores_loop fs n world k = Some r \<longleftrightarrow>
              (\<exists>j>k. (\<forall>i. k < i \<and> i < j \<longrightarrow> iteration fs n (world i) = Sleep_uniform 1 60) \<and>
                     final (iteration fs n (world j)) = Some r)) \<and>
         ((\<forall>j<k. iteration fs n (world j) = Sleep_uniform 1 60) \<longrightarrow>
            (\<forall>r. get_free_cores fs n world = Some r \<longleftrightarrow>
               (\<exists>j>k. (\<forall>i<j. iteration fs n (world i) = Sleep_uniform 1 60) \<and>
                      final (iteration fs n (world j)) = Some r)))"
proof -
  have none: "\<forall>i. 0 \<le> i \<and> i < int P div n \<longrightarrow> \<not> window_free fs n (world k) i"
    using assms(3)
  proof
    assume "\<forall>i. 0 \<le> i \<and> i < int P div n \<longrightarrow> \<not> window_free fs n (world k) i"
    then show ?thesis .
  next
    assume hot: "\<forall>i. 0 \<le> i \<and> i < int P div n \<longrightarrow>
              (\<exists>x \<in> set (window_samples n (cpu_percent (world k)) i). x > 90)"
    show ?thesis
    proof (intro allI impI)
      fix i assume "0 \<le> i \<and> i < int P div n"
      with hot obtain x where x: "x \<in> set (window_samples n (cpu_percent (world k)) i)" "x > 90"
        by blast
      show "\<not> window_free fs n (world k) i"
      proof
        assume "window_free fs n (world k) i"
        then have "x \<le> 90" using x(1) by (simp add: window_free_def)
        with x(2) show False by simp
      qed
    qed
  qed
  then have s: "iteration fs n (world k) = Sleep_uniform 1 60"
    using iteration_Sleep_iff[OF assms(1,2)] by blast
  have nr: "\<not> returns_in fs n world k r" for r
    using s by (simp add: returns_in_iff)
  have lp: "get_free_cores_loop fs n world k = Some r \<longleftrightarrow>
      (\<exists>j>k. (\<forall>i. k < i \<and> i < j \<longrightarrow> iteration fs n (world i) = Sleep_uniform 1 60) \<and>
             final (iteration fs n (world j)) = Some r)" (is "?L \<longleftrightarrow> ?R") for r
  proof
    assume ?L
    then obtain j where j: "k \<le> j"
      "\<forall>i. k \<le> i \<and> i < j \<longrightarrow> iteration fs n (world i) = Sleep_uniform 1 60"
      "final (iteration fs n (world j)) = Some r"
      unfolding loop_Some_iff by blast
    have "j \<noteq> k" using j(3) s by auto
    with j(1) have "k < j" by simp
    moreover have "\<forall>i. k < i \<and> i < j \<longrightarrow> iteration fs n (world i) = Sleep_uniform 1 60"
      using j(2) by simp
    ultimately show ?R using j(3) by blast
  next
    assume ?R
    then obtain j where j: "k < j"
      "\<forall>i. k < i \<and> i < j \<longrightarrow> iteration fs n (world i) = Sleep_uniform 1 60"
      "final (iteration fs n (world j)) = Some r" by blast
    have "iteration fs n (world i) = Sleep_uniform 1 60" if "k \<le> i \<and> i < j" for i
    proof (cases "i = k")
      case True
      then show ?thesis using s by simp
    next
      case False
      with that have "k < i \<and> i < j" by simp
      then show ?thesis using j(2) by blast
    qed
    moreover have "k \<le> j" using j(1) by simp
    ultimately show ?L unfolding loop_Some_iff using j(3) by blast
  qed
  have cl: "get_free_cores fs n world = Some r \<longleftrightarrow>
      (\<exists>j>k. (\<forall>i<j. iteration fs n (world i) = Sleep_uniform 1 60) \<and>
             final (iteration fs n (world j)) = Some r)" (is "?L \<longleftrightarrow> ?R")
    if before: "\<forall>j<k. iteration fs n (world j) = Sleep_uniform 1 60" for r
  proof
    assume ?L
    then obtain j where j:
      "\<forall>i. 0 \<le> i \<and> i < j \<longrightarrow> iteration fs n (world i) = Sleep_uniform 1 60"
      "final (iteration fs n (world j)) = Some r"
      unfolding get_free_cores_def loop_Some_iff by blast
    have "\<not> j \<le> k"
    proof
      assume "j \<le> k"
      then have "iteration fs n (world j) = Sleep_uniform 1 60"
        using before s by (cases "j = k") simp_all
      then show False using j(2) by simp
    qed
    then have "k < j" by simp
    moreover have "\<forall>i<j. iteration fs n (world i) = Sleep_uniform 1 60" using j(1) by simp
    ultimately show ?R using j(2) by blast
  next
    assume ?R
    then obtain j where j: "\<forall>i<j. iteration fs n (world i) = Sleep_uniform 1 60"
      "final (iteration fs n (world j)) = Some r" by blast
    then have "\<forall>i. 0 \<le> i \<and> i < j \<longrightarrow> iteration fs n (world i) = Sleep_uniform 1 60"
      by simp
    then show ?L unfolding get_free_cores_def loop_Some_iff using j(2) by blast
  qed
  from s nr lp cl show ?thesis by blast
qed

theorem C5_witness:
  "cpu_count (world_hot_then_idle 0) False = Some 8 \<and> (0::int) < 4 \<and> int 8 div 4 = 2 \<and>
   (\<exists>x \<in> set (window_samples 4 (cpu_percent (world_hot_then_idle 0)) 0). x > 90) \<and>
   (\<exists>x \<in> set (window_samples 4 (cpu_percent (world_hot_then_idle 0)) 1). x > 90) \<and>
   iteration sum_list 4 (world_hot_then_idle 0) = Sleep_uniform 1 60 \<and>
   \<not> returns_in sum_list 4 world_hot_then_idle 0 (0, 0, 3) \<and>
   iteration sum_list 4 (world_hot_then_idle 1) = Sleep_uniform 1 60 \<and>
   iteration sum_list 4 (world_hot_then_idle 2) = Return (0, 0, 3) \<and>
   get_free_cores sum_list 4 world_hot_then_idle = Some (Inr (0, 0, 3))"
proof -
  have c: "cpu_count (world_hot_then_idle 0) False = Some 8"
    by (simp add: world_hot_then_idle_def host_hot_def)
  have h0: "\<exists>x \<in> set (window_samples 4 (cpu_percent (world_hot_then_idle 0)) 0). x > 90"
    by code_simp
  have h1: "\<exists>x \<in> set (window_samples 4 (cpu_percent (world_hot_then_idle 0)) 1). x > 90"
    by code_simp
  have d: "int 8 div 4 = 2" by simp
  have hot: "\<exists>x \<in> set (window_samples 4 (cpu_percent (world_hot_then_idle 0)) i). x > 90"
    if "0 \<le> i \<and> i < int 8 div 4" for i
  proof -
    from d that have "i = 0 \<or> i = 1" by linarith
    then show ?thesis using h0 h1 by blast
  qed
  have h: "(\<forall>i. 0 \<le> i \<and> i < int 8 div 4 \<longrightarrow> \<not> window_free sum_list 4 (world_hot_then_idle 0) i) \<or>
     (\<forall>i. 0 \<le> i \<and> i < int 8 div 4 \<longrightarrow>
        (\<exists>x \<in> set (window_samples 4 (cpu_percent (world_hot_then_idle 0)) i). x > 90))"
    using hot by blast
  have pos: "(0::int) < 4" by simp
  note step = C5_no_free_window_sleeps_and_retries[where world = world_hot_then_idle
      and k = 0 and P = 8 and n = 4 and fs = sum_list, OF c pos h]
  from step have i0: "iteration sum_list 4 (world_hot_then_idle 0) = Sleep_uniform 1 60"
    and nr: "\<not> returns_in sum_list 4 world_hot_then_idle 0 (0, 0, 3)"
    and call: "get_free_cores sum_list 4 world_hot_then_idle = Some (Inr (0, 0, 3)) \<longleftrightarrow>
       (\<exists>j>0. (\<forall>i<j. iteration sum_list 4 (world_hot_then_idle i) = Sleep_uniform 1 60) \<and>
              final (iteration sum_list 4 (world_hot_then_idle j)) = Some (Inr (0, 0, 3)))"
    by simp_all
  have i1: "iteration sum_list 4 (world_hot_then_idle 1) = Sleep_uniform 1 60" by code_simp
  have i2: "iteration sum_list 4 (world_hot_then_idle 2) = Return (0, 0, 3)" by code_simp
  have "iteration sum_list 4 (world_hot_then_idle i) = Sleep_uniform 1 60" if "i < 2" for i
  proof -
    from that have "i = 0 \<or> i = 1" by linarith
    then show ?thesis using i0 i1 by blast
  qed
  moreover have "final (iteration sum_list 4 (world_hot_then_idle 2)) = Some (Inr (0, 0, 3))"
    using i2 by simp
  moreover have "(0::nat) < 2" by simp
  ultimately have g: "get_free_cores sum_list 4 world_hot_then_idle = Some (Inr (0, 0, 3))"
    unfolding call by blast
  from i0 nr i1 i2 g c h0 h1 d show ?thesis by simp
qed

text \<open>
  C10. When \<open>n\<close> is greater than the core count the system reports in every iteration, the
  number of windows is 0, every iteration ends in the sleep, and the call never returns,
  whatever the utilisation values and the reservations are.
\<close>

theorem C10_window_larger_than_host_never_returns:
  assumes "\<forall>k. \<exists>P. cpu_count (world k) False = Some P \<and> int P < n"
  shows "(\<forall>k P. cpu_count (world k) False = Some P \<longrightarrow> int P div n = 0) \<and>
         (\<forall>k. iteration fs n (world k) = Sleep_uniform 1 60) \<and>
         get_free_cores fs n world = None"
proof -
  have nw: "int P div n = 0" if "cpu_count (world k) False = Some P" for k P
  proof -
    from assms obtain Q where "cpu_count (world k) False = Some Q" "int Q < n" by blast
    with that have "int P < n" by simp
    then show ?thesis by simp
  qed
  have sl: "iteration fs n (world k) = Sleep_uniform 1 60" for k
  proof -
    from assms obtain P where P: "cpu_count (world k) False = Some P" "int P < n" by blast
    then have "0 < n" by linarith
    have z: "int P div n = 0" using P by simp
    have "\<forall>i. 0 \<le> i \<and> i < int P div n \<longrightarrow> \<not> window_free fs n (world k) i"
    proof (intro allI impI)
      fix i assume "0 \<le> i \<and> i < int P div n"
      with z have False by linarith
      then show "\<not> window_free fs n (world k) i" ..
    qed
    then show ?thesis using iteration_Sleep_iff[OF P(1) \<open>0 < n\<close>] by blast
  qed
  have "get_free_cores fs n world = None"
    unfolding get_free_cores_def using sl by (intro loop_never_returns) simp
  with nw sl show ?thesis by blast
qed

theorem C10_witness:
  "(\<forall>k. \<exists>P. cpu_count ((\<lambda>k. host_small) k) False = Some P \<and> int P < 3) \<and>
   get_free_cores sum_list 3 (\<lambda>k. host_small) = None"
proof -
  have h: "\<forall>k. \<exists>P. cpu_count ((\<lambda>k. host_small) k) False = Some P \<and> int P < 3"
    by (simp add: host_small_def)
  from C10_window_larger_than_host_never_returns[OF h] h show ?thesis by blast
qed

subsection \<open>An idle host\<close>

text \<open>
  C7, as stated: with every utilisation value 0 the call returns \<open>(0, 0, n - 1)\<close> in its first
  iteration. It does not when a core of the first window is reserved: on \<open>host_pinned\<close> every
  value is 0, cores 0 to 3 are reserved, and the call returns the second window.
\<close>

theorem C7_counterexample:
  "cpu_percent host_pinned = [0, 0, 0, 0, 0, 0, 0, 0] \<and>
   get_free_cores sum_list 4 (\<lambda>k. host_pinned) = Some (Inr (1, 4, 7)) \<and>
   get_free_cores sum_list 4 (\<lambda>k. host_pinned) \<noteq> Some (Inr (0, 0, 4 - 1))"
proof -
  have "iteration sum_list 4 host_pinned = Return (1, 4, 7)" by code_simp
  then have "get_free_cores sum_list 4 (\<lambda>k. host_pinned) = Some (Inr (1, 4, 7))"
    unfolding get_free_cores_def by (intro loop_step_final) simp
  then show ?thesis by (simp add: host_pinned_def)
qed

text \<open>
  C7, amended: when every utilisation value of the first snapshot is 0, no core of the first
  window is reserved there, \<open>0 < n \<le> P\<close> and \<open>P \<ge> 2\<close> for the core count \<open>P\<close> of that
  snapshot, the call returns \<open>(0, 0, n - 1)\<close> in its first iteration. Of the interpreter's
  \<^verbatim>\<open>sum\<close> this uses that a list of zeros sums to 0, as it does however the floats are added.
\<close>

theorem C7_idle_host_returns_first_window:
  assumes "cpu_count (world 0) False = Some P" and "0 < n" and "n \<le> int P" and "2 \<le> P"
    and "\<forall>x \<in> set (cpu_percent (world 0)). x = 0"
    and "\<forall>c \<in> set [0..n - 1]. c \<notin> reserved (world 0)"
    and "\<forall>m. fs (replicate m 0) = 0"
  shows "returns_in fs n world 0 (0, 0, n - 1) \<and> get_free_cores fs n world = Some (Inr (0, 0, n - 1))"
proof -
  let ?w = "window_samples n (cpu_percent (world 0)) 0"
  have z: "\<forall>x \<in> set ?w. x = 0" using assms(5) window_samples_subset by blast
  then have "replicate (length ?w) 0 = ?w" by (intro replicate_length_same) simp
  then have "fs ?w = 0" using assms(7) by metis
  then have "fs ?w < 30 * of_int n" using assms(2) by simp
  moreover have "\<forall>x \<in> set ?w. x \<le> 90"
  proof
    fix x assume "x \<in> set ?w"
    with z have "x = 0" by blast
    then show "x \<le> 90" by simp
  qed
  ultimately have free: "window_free fs n (world 0) 0"
    using assms(6) by (simp add: window_free_def)
  have "0 < int P div n" using assms(2,3) by (simp add: pos_imp_zdiv_pos_iff)
  moreover have "\<forall>j. 0 \<le> j \<and> j < (0::int) \<longrightarrow> \<not> window_free fs n (world 0) j"
  proof (intro allI impI)
    fix j :: int assume "0 \<le> j \<and> j < 0"
    then have False by linarith
    then show "\<not> window_free fs n (world 0) j" ..
  qed
  moreover have "return_window n (int P) 0 = Return (0, 0, n - 1)"
    using assms(4) by (simp add: return_window_def)
  ultimately have it: "iteration fs n (world 0) = Return (0, 0, n - 1)"
    unfolding iteration_Return_iff[OF assms(1,2)] using free by blast
  then have "returns_in fs n world 0 (0, 0, n - 1)" by (simp add: returns_in_iff)
  moreover from it have "get_free_cores fs n world = Some (Inr (0, 0, n - 1))"
    unfolding get_free_cores_def by (intro loop_step_final) simp
  ultimately show ?thesis by simp
qed

theorem C7_witness:
  "cpu_count ((\<lambda>k. host_idle) 0) False = Some 8 \<and> (0::int) < 4 \<and> (4::int) \<le> int 8 \<and>
   (2::nat) \<le> 8 \<and> cpu_percent ((\<lambda>k. host_idle) 0) = [0, 0, 0, 0, 0, 0, 0, 0] \<and>
   reserved ((\<lambda>k. host_idle) 0) = {} \<and> (\<forall>m. sum_list (replicate m (0::real)) = 0) \<and>
   get_free_cores sum_list 4 (\<lambda>k. host_idle) = Some (Inr (0, 0, 4 - 1))"
proof -
  have c: "cpu_count ((\<lambda>k. host_idle) 0) False = Some 8" by (simp add: host_idle_def)
  have u: "\<forall>x \<in> set (cpu_percent ((\<lambda>k. host_idle) 0)). x = 0" by (simp add: host_idle_def)
  have r: "\<forall>c \<in> set [0..4 - 1]. c \<notin> reserved ((\<lambda>k. host_idle) 0)"
    by (simp add: host_idle_def reserved_def)
  have a: "(0::int) < 4" "(4::int) \<le> int 8" "(2::nat) \<le> 8" by simp_all
  have u': "cpu_percent ((\<lambda>k. host_idle) 0) = [0, 0, 0, 0, 0, 0, 0, 0]"
    by (simp add: host_idle_def)
  have r': "reserved ((\<lambda>k. host_idle) 0) = {}" by (simp add: host_idle_def reserved_def)
  have z: "\<forall>m. sum_list (replicate m (0::real)) = 0" by (simp add: sum_list_replicate)
  from C7_idle_host_returns_first_window[where world = "\<lambda>k. host_idle" and P = 8 and n = 4
      and fs = sum_list, OF c a u r z] c u' r' a z
  show ?thesis by blast
qed

subsection \<open>The core count\<close>

text \<open>
  C8, as stated: the core count cut into windows is the logical core count, the one the
  utilisation snapshot ranges over. On \<open>host_smt\<close> the snapshot has 8 entries and 8 logical
  cores are reported, window 1 (cores 4 to 7) is free, and yet the iteration sleeps: only
  \<open>4 div 4 = 1\<close> window was examined.
\<close>

theorem C8_counterexample:
  "cpu_count host_smt True = Some 8 \<and> length (cpu_percent host_smt) = 8 \<and>
   (1::int) < int 8 div 4 \<and> window_free sum_list 4 host_smt 1 \<and>
   iteration sum_list 4 host_smt = Sleep_uniform 1 60"
proof -
  have "window_free sum_list 4 host_smt 1" by code_simp
  moreover have "iteration sum_list 4 host_smt = Sleep_uniform 1 60" by code_simp
  ultimately show ?thesis by (simp add: host_smt_def)
qed

text \<open>
  The outcome of an iteration depends on the utilisation snapshot through its first \<open>P\<close>
  entries only, \<open>P\<close> being the physical core count, and not on the logical core count.
\<close>

lemma iteration_reads_physical_cores_only:
  assumes "cpu_count h False = Some P" and "cpu_count h' False = Some P"
    and "process_iter h' = process_iter h"
    and "take P (cpu_percent h') = take P (cpu_percent h)"
  shows "iteration fs n h' = iteration fs n h"
proof (cases "n = 0")
  case True
  then show ?thesis using assms(1,2) by (simp add: iteration_def)
next
  case False
  let ?dis = "scan_processes [] (process_iter h)"
  have "List.find (accepted fs n ?dis (cpu_percent h')) [0..int P div n - 1] =
        List.find (accepted fs n ?dis (cpu_percent h)) [0..int P div n - 1]"
  proof (rule find_cong[OF refl])
    fix i assume "i \<in> set [0..int P div n - 1]"
    then have i: "0 \<le> i" "i < int P div n" by simp_all
    have "0 < n"
    proof (rule ccontr)
      assume "\<not> 0 < n"
      with False have "n < 0" by simp
      then have "int P div n \<le> 0" by (simp add: div_nonneg_neg_le0)
      with i show False by simp
    qed
    then have "accepted fs n ?dis (cpu_percent h') i = accepted fs n ?dis (take P (cpu_percent h')) i"
      "accepted fs n ?dis (cpu_percent h) i = accepted fs n ?dis (take P (cpu_percent h)) i"
      using i by (simp_all add: accepted_take)
    then show "accepted fs n ?dis (cpu_percent h') i = accepted fs n ?dis (cpu_percent h) i"
      using assms(4) by simp
  qed
  then show ?thesis
    using False assms(1,2,3) by (simp add: iteration_find)
qed

text \<open>
  C8, amended: the count cut into windows is \<^verbatim>\<open>psutil.cpu_count(logical=False)\<close>, the
  physical core count \<open>P\<close>. The windows an iteration examines are those of the indices below
  \<open>P div n\<close>, all of them and no other: it sleeps exactly when none of them is free, a window
  it returns is the first free one among them and lies in \<open>[0, P)\<close>, and (on a host of at
  least two cores) the first free one among them is returned. Neither the logical core
  count nor the utilisation values from index \<open>P\<close> on have any influence.
\<close>

theorem C8_windows_cut_from_physical_count:
  assumes "cpu_count h False = Some P" and "0 < n"
  shows "(iteration fs n h = Sleep_uniform 1 60 \<longleftrightarrow>
            (\<forall>i. 0 \<le> i \<and> i < int P div n \<longrightarrow> \<not> window_free fs n h i)) \<and>
         (\<forall>numa s e. iteration fs n h = Return (numa, s, e) \<longrightarrow>
            (\<exists>i. 0 \<le> i \<and> i < int P div n \<and> s = i * n \<and> e = i * n + n - 1 \<and>
                 window_free fs n h i \<and>
                 (\<forall>j. 0 \<le> j \<and> j < i \<longrightarrow> \<not> window_free fs n h j)) \<and>
            0 \<le> s \<and> e < int P) \<and>
         (2 \<le> P \<longrightarrow>
            (\<forall>i. 0 \<le> i \<and> i < int P div n \<and> window_free fs n h i \<and>
                 (\<forall>j. 0 \<le> j \<and> j < i \<longrightarrow> \<not> window_free fs n h j) \<longrightarrow>
                 iteration fs n h =
                   Return (((i * n) mod int P) div (int P div 2), i * n, i * n + n - 1))) \<and>
         (\<forall>h'. cpu_count h' False = Some P \<and> process_iter h' = process_iter h \<and>
               take P (cpu_percent h') = take P (cpu_percent h) \<longrightarrow>
               iteration fs n h' = iteration fs n h)"
proof -
  have sleep: "iteration fs n h = Sleep_uniform 1 60 \<longleftrightarrow>
      (\<forall>i. 0 \<le> i \<and> i < int P div n \<longrightarrow> \<not> window_free fs n h i)"
    using assms by (rule iteration_Sleep_iff)
  have ret: "(\<exists>i. 0 \<le> i \<and> i < int P div n \<and> s = i * n \<and> e = i * n + n - 1 \<and>
                 window_free fs n h i \<and>
                 (\<forall>j. 0 \<le> j \<and> j < i \<longrightarrow> \<not> window_free fs n h j)) \<and>
            0 \<le> s \<and> e < int P"
    if r: "iteration fs n h = Return (numa, s, e)" for numa s e
  proof -
    from r obtain i where i: "0 \<le> i" "i < int P div n" "window_free fs n h i"
      "\<forall>j. 0 \<le> j \<and> j < i \<longrightarrow> \<not> window_free fs n h j"
      "return_window n (int P) i = Return (numa, s, e)"
      unfolding iteration_Return_iff[OF assms] by blast
    from i(5) have se: "s = i * n" "e = i * n + n - 1"
      unfolding return_window_Return_iff by simp_all
    have "e < int P" using window_end_below[OF assms(2) i(1,2)] se(2) by simp
    moreover have "0 \<le> s" using assms(2) i(1) se(1) by simp
    ultimately show ?thesis using i(1,2,3,4) se by blast
  qed
  have first: "iteration fs n h =
      Return (((i * n) mod int P) div (int P div 2), i * n, i * n + n - 1)"
    if "2 \<le> P" and i: "0 \<le> i \<and> i < int P div n \<and> window_free fs n h i \<and>
         (\<forall>j. 0 \<le> j \<and> j < i \<longrightarrow> \<not> window_free fs n h j)" for i
  proof -
    have "return_window n (int P) i =
        Return (((i * n) mod int P) div (int P div 2), i * n, i * n + n - 1)"
      using \<open>2 \<le> P\<close> by (simp add: return_window_def)
    then show ?thesis unfolding iteration_Return_iff[OF assms] using i by blast
  qed
  have same: "iteration fs n h' = iteration fs n h"
    if "cpu_count h' False = Some P \<and> process_iter h' = process_iter h \<and>
        take P (cpu_percent h') = take P (cpu_percent h)" for h'
    using that assms(1) by (intro iteration_reads_physical_cores_only[of h P]) simp_all
  from sleep ret first same show ?thesis by blast
qed

theorem C8_witness:
  "cpu_count host_smt False = Some 4 \<and> (0::int) < 4 \<and> int 4 div 4 = 1 \<and>
   \<not> window_free sum_list 4 host_smt 0 \<and>
   iteration sum_list 4 host_smt = Sleep_uniform 1 60 \<and>
   iteration sum_list 4
     \<lparr>process_iter = [], cpu_count = (\<lambda>logical. if logical then Some 16 else Some 4),
      cpu_percent = [100, 100, 100, 100, 77, 88]\<rparr> = iteration sum_list 4 host_smt"
proof -
  let ?h = "\<lparr>process_iter = [], cpu_count = (\<lambda>logical. if logical then Some 16 else Some 4),
              cpu_percent = [100, 100, 100, 100, 77, 88::real]\<rparr>"
  have a: "cpu_count host_smt False = Some 4" by (simp add: host_smt_def)
  have pos: "(0::int) < 4" by simp
  have d: "int 4 div 4 = 1" by simp
  note inst = C8_windows_cut_from_physical_count[where h = host_smt and P = 4 and n = 4
      and fs = sum_list, OF a pos]
  have nf: "\<not> window_free sum_list 4 host_smt 0" by code_simp
  have "\<not> window_free sum_list 4 host_smt i" if "0 \<le> i \<and> i < int 4 div 4" for i
  proof -
    from that d have "i = 0" by linarith
    then show ?thesis using nf by simp
  qed
  then have sl: "iteration sum_list 4 host_smt = Sleep_uniform 1 60" using inst by blast
  have "cpu_count ?h False = Some 4 \<and> process_iter ?h = process_iter host_smt \<and>
        take 4 (cpu_percent ?h) = take 4 (cpu_percent host_smt)"
    by (simp add: host_smt_def)
  then have "iteration sum_list 4 ?h = iteration sum_list 4 host_smt" using inst by blast
  with a pos d nf sl show ?thesis by simp
qed

subsection \<open>The value of \<^verbatim>\<open>__exec_cmd\<close>\<close>




end
